theory Spec2Isabelle
  imports Complex_Main "HOL-Library.Log_Nat"
begin

section \<open>Python numbers\<close>

text \<open>
  \<^verbatim>\<open>plot_transcript.py\<close> computes with Python integers (exact, unbounded) and Python
  floats (IEEE 754 binary64). A number is modelled by the rational it denotes together
  with its Python type, because the type decides where an operation rounds: an operation
  on two integers is exact, every other operation converts its operands to binary64 and
  rounds the exact result to the nearest binary64 value, ties to even. The rounding \<open>fl\<close>
  below has no exponent bound, so it is the binary64 rounding of an exact result
  whenever that result is zero or of normal binary64 magnitude, from \<open>2^-1022\<close> to \<open>2^1023\<close>
  (\<open>binary64_normal\<close>): a larger result overflows to infinity in binary64, a smaller one
  is rounded on the subnormal grid, and neither is modelled. The Intron Scaler divides by
  a factor the user chooses, which can drive a result out of that range; the statement
  about the lengths it computes therefore bounds the factor and proves that every float
  operation of the run has its exact result in the range.
\<close>

datatype py_error = IndexError | ZeroDivisionError | ValueError | UnboundLocalError

datatype pynum = PyInt int | PyFloat rat

definition bind_err :: "py_error + 'a \<Rightarrow> ('a \<Rightarrow> py_error + 'b) \<Rightarrow> py_error + 'b" where
  "bind_err m f = (case m of Inl e \<Rightarrow> Inl e | Inr x \<Rightarrow> f x)"

fun map_err :: "('a \<Rightarrow> py_error + 'b) \<Rightarrow> 'a list \<Rightarrow> py_error + 'b list" where
  "map_err f [] = Inr []"
| "map_err f (x # xs) =
     bind_err (f x) (\<lambda>y. bind_err (map_err f xs) (\<lambda>ys. Inr (y # ys)))"

text \<open>The binary exponent of a nonzero rational: the \<open>e\<close> with \<open>2^e \<le> |x| < 2^(e+1)\<close>.\<close>

definition float_exp :: "rat \<Rightarrow> int" where
  "float_exp x =
     (if 1 \<le> \<bar>x\<bar> then bitlen \<lfloor>\<bar>x\<bar>\<rfloor> - 1 else - bitlen (\<lceil>1 / \<bar>x\<bar>\<rceil> - 1))"

text \<open>Rounding to the nearest integer, ties to the even one.\<close>

definition round_even :: "rat \<Rightarrow> int" where
  "round_even y =
     (let f = \<lfloor>y\<rfloor>; r = y - of_int f
      in if r < 1 / 2 then f else if 1 / 2 < r then f + 1 else if even f then f else f + 1)"

text \<open>Rounding to binary64: 53 significant bits, so the unit in the last place of \<open>x\<close> is
  \<open>2^(float_exp x - 52)\<close>.\<close>

definition fl :: "rat \<Rightarrow> rat" where
  "fl x = (if x = 0 then 0
           else let u = 2 powi (float_exp x - 52) in of_int (round_even (x / u)) * u)"

text \<open>The exact results on which \<open>fl\<close> is binary64 rounding: zero, and the magnitudes of
  the normal binary64 numbers.\<close>

definition binary64_normal :: "rat \<Rightarrow> bool" where
  "binary64_normal x = (x = 0 \<or> (2 powi (- 1022) \<le> \<bar>x\<bar> \<and> \<bar>x\<bar> \<le> 2 ^ 1023))"

fun py_val :: "pynum \<Rightarrow> rat" where
  "py_val (PyInt n) = of_int n"
| "py_val (PyFloat x) = x"

text \<open>\<^verbatim>\<open>float(x)\<close>, the conversion applied to an integer operand of a float operation.\<close>

fun to_float :: "pynum \<Rightarrow> rat" where
  "to_float (PyInt n) = fl (of_int n)"
| "to_float (PyFloat x) = x"

fun py_add :: "pynum \<Rightarrow> pynum \<Rightarrow> pynum" where
  "py_add (PyInt a) (PyInt b) = PyInt (a + b)"
| "py_add a b = PyFloat (fl (to_float a + to_float b))"

fun py_sub :: "pynum \<Rightarrow> pynum \<Rightarrow> pynum" where
  "py_sub (PyInt a) (PyInt b) = PyInt (a - b)"
| "py_sub a b = PyFloat (fl (to_float a - to_float b))"

fun py_mul :: "pynum \<Rightarrow> pynum \<Rightarrow> pynum" where
  "py_mul (PyInt a) (PyInt b) = PyInt (a * b)"
| "py_mul a b = PyFloat (fl (to_float a * to_float b))"

text \<open>True division \<^verbatim>\<open>a / b\<close> for a divisor known to be nonzero: the quotient of two
  integers is the correctly rounded exact quotient.\<close>

fun py_quot :: "pynum \<Rightarrow> pynum \<Rightarrow> pynum" where
  "py_quot (PyInt a) (PyInt b) = PyFloat (fl (of_int a / of_int b))"
| "py_quot a b = PyFloat (fl (to_float a / to_float b))"

text \<open>The exact results that \<open>py_quot\<close> and a float \<open>py_add\<close> round: the quotient and
  the sum of the operands, before \<open>fl\<close> is applied.\<close>

fun exact_quot :: "pynum \<Rightarrow> pynum \<Rightarrow> rat" where
  "exact_quot (PyInt a) (PyInt b) = of_int a / of_int b"
| "exact_quot a b = to_float a / to_float b"

definition exact_add :: "pynum \<Rightarrow> pynum \<Rightarrow> rat" where
  "exact_add a b = to_float a + to_float b"

definition py_truediv :: "pynum \<Rightarrow> pynum \<Rightarrow> py_error + pynum" where
  "py_truediv a b = (if py_val b = 0 then Inl ZeroDivisionError else Inr (py_quot a b))"

text \<open>Comparisons between Python numbers are exact, also between an integer and a float.\<close>

definition py_le :: "pynum \<Rightarrow> pynum \<Rightarrow> bool" where
  "py_le a b = (py_val a \<le> py_val b)"

definition py_lt :: "pynum \<Rightarrow> pynum \<Rightarrow> bool" where
  "py_lt a b = (py_val a < py_val b)"

text \<open>The builtin \<^verbatim>\<open>max\<close>: the first maximal item, \<^verbatim>\<open>ValueError\<close> on an empty list.\<close>

fun py_max :: "pynum list \<Rightarrow> py_error + pynum" where
  "py_max [] = Inl ValueError"
| "py_max (x # xs) = Inr (foldl (\<lambda>m v. if py_lt m v then v else m) x xs)"

text \<open>
  \<^verbatim>\<open>numpy.arange(start, stop, step)\<close> on floats: numpy takes
  \<^verbatim>\<open>ceil((stop - start) / step)\<close>, computed in floats, as the number of elements, stores
  \<^verbatim>\<open>start\<close> and \<^verbatim>\<open>start + step\<close> as the first two and fills the rest with
  \<^verbatim>\<open>start + i * delta\<close>, where \<^verbatim>\<open>delta\<close> is the difference of the first two.
\<close>

definition arange :: "pynum \<Rightarrow> pynum \<Rightarrow> pynum \<Rightarrow> py_error + rat list" where
  "arange start stop step =
     bind_err (py_truediv (py_sub stop start) step) (\<lambda>v.
       let n = \<lceil>to_float v\<rceil> in
       if n \<le> 0 then Inr []
       else
         let s0 = to_float start;
             nxt = to_float (py_add start step);
             delta = fl (nxt - s0)
         in Inr (map (\<lambda>i. if i = 0 then s0 else if i = 1 then nxt
                            else fl (s0 + fl (fl (of_nat i) * delta)))
                  [0..<nat n]))"

section \<open>Gene to transcript resolution\<close>

text \<open>
  \<^verbatim>\<open>get_transcript_from_gene\<close> reads the rows \<^verbatim>\<open>(transcript, start, stop)\<close> of one gene
  and adds \<^verbatim>\<open>1 + (stop - start)\<close> to the transcript's entry of a
  \<^verbatim>\<open>defaultdict(int)\<close>. A Python dictionary iterates in the order in which its keys
  were first inserted, so the dictionary is an association list that keeps that order.
\<close>

type_synonym exon_row = "string \<times> int \<times> int"

fun dict_add :: "(string \<times> int) list \<Rightarrow> string \<Rightarrow> int \<Rightarrow> (string \<times> int) list" where
  "dict_add [] k v = [(k, 0 + v)]"
| "dict_add ((k', w) # d) k v = (if k' = k then (k', w + v) # d else (k', w) # dict_add d k v)"

fun transcript_lengths :: "(string \<times> int) list \<Rightarrow> exon_row list \<Rightarrow> (string \<times> int) list" where
  "transcript_lengths d [] = d"
| "transcript_lengths d ((transcript, start, stop) # rows) =
     transcript_lengths (dict_add d transcript (1 + (stop - start))) rows"

fun longest_loop :: "int \<Rightarrow> string \<Rightarrow> (string \<times> int) list \<Rightarrow> string" where
  "longest_loop m longest [] = longest"
| "longest_loop m longest ((transcript, len) # items) =
     (if len > m then longest_loop len transcript items
      else longest_loop m longest items)"

definition get_transcript_from_gene :: "exon_row list \<Rightarrow> string" where
  "get_transcript_from_gene fetched = longest_loop 0 [] (transcript_lengths [] fetched)"

text \<open>The summed exonic length of a transcript, as the specification words it: the sum of
  \<open>stop - start + 1\<close> over the transcript's rows.\<close>

definition exonic_length :: "exon_row list \<Rightarrow> string \<Rightarrow> int" where
  "exonic_length rows t =
     sum_list (map (\<lambda>(t', start, stop). stop - start + 1) (filter (\<lambda>r. fst r = t) rows))"

text \<open>The transcripts of the rows in the order in which they are first encountered.\<close>

fun first_seen :: "string list \<Rightarrow> string list \<Rightarrow> string list" where
  "first_seen seen [] = []"
| "first_seen seen (t # ts) =
     (if t \<in> set seen then first_seen seen ts else t # first_seen (t # seen) ts)"

section \<open>Intron Scaler\<close>

type_synonym span = "pynum \<times> pynum"

text \<open>The loop of \<^verbatim>\<open>scale_introns\<close> from index 1 on: \<open>exonEnd\<close> is \<^verbatim>\<open>coords[i-1][1]\<close>
  and \<open>newEnd\<close> is \<^verbatim>\<open>newcoords[i-1][1]\<close>.\<close>

fun scale_loop :: "pynum \<Rightarrow> pynum \<Rightarrow> pynum \<Rightarrow> span list \<Rightarrow> py_error + span list" where
  "scale_loop scaling_factor exonEnd newEnd [] = Inr []"
| "scale_loop scaling_factor exonEnd newEnd ((nextExonStart, stop) # rest) =
     (let len = py_sub stop nextExonStart in
      bind_err (py_truediv (py_sub nextExonStart exonEnd) scaling_factor) (\<lambda>intron.
        let left = py_add newEnd intron;
            right = py_add left len
        in bind_err (scale_loop scaling_factor stop right rest) (\<lambda>newcoords.
             Inr ((left, right) # newcoords))))"

definition scale_introns :: "span list \<Rightarrow> pynum \<Rightarrow> py_error + span list" where
  "scale_introns coords scaling_factor =
     (if py_val scaling_factor = 0 then Inr coords
      else case coords of
             [] \<Rightarrow> Inl IndexError
           | first # rest \<Rightarrow>
               bind_err (scale_loop scaling_factor (snd first) (snd first) rest) (\<lambda>newcoords.
                 Inr (first # newcoords)))"

text \<open>The exact results of the three float operations of each round of the loop, in the
  order in which the loop computes them: the quotient \<^verbatim>\<open>(nextExonStart - exonEnd) /
  scaling_factor\<close>, the sum \<^verbatim>\<open>newcoords[i-1][1] + intron\<close> and the sum
  \<^verbatim>\<open>left + length\<close>, each before it is rounded. The values the loop goes on with are
  the rounded ones, as in \<open>scale_loop\<close>.\<close>

fun scale_loop_exact :: "pynum \<Rightarrow> pynum \<Rightarrow> pynum \<Rightarrow> span list \<Rightarrow> rat list" where
  "scale_loop_exact scaling_factor exonEnd newEnd [] = []"
| "scale_loop_exact scaling_factor exonEnd newEnd ((nextExonStart, stop) # rest) =
     (let len = py_sub stop nextExonStart;
          gap = py_sub nextExonStart exonEnd;
          intron = py_quot gap scaling_factor;
          left = py_add newEnd intron;
          right = py_add left len
      in exact_quot gap scaling_factor # exact_add newEnd intron # exact_add left len
           # scale_loop_exact scaling_factor stop right rest)"

definition scale_introns_exact :: "span list \<Rightarrow> pynum \<Rightarrow> rat list" where
  "scale_introns_exact coords scaling_factor =
     (case coords of
        [] \<Rightarrow> []
      | first # rest \<Rightarrow> scale_loop_exact scaling_factor (snd first) (snd first) rest)"

text \<open>Integer exon spans, as the coordinate store delivers them.\<close>

definition int_spans :: "(int \<times> int) list \<Rightarrow> span list" where
  "int_spans cs = map (\<lambda>(a, b). (PyInt a, PyInt b)) cs"

text \<open>Monotonically increasing, mutually non-overlapping spans: every span ends no earlier
  than it starts, and the next one starts no earlier than it ends.\<close>

fun spans_ordered :: "span list \<Rightarrow> bool" where
  "spans_ordered [] = True"
| "spans_ordered [(a, b)] = py_le a b"
| "spans_ordered ((a, b) # (c, d) # rest) =
     (py_le a b \<and> py_le b c \<and> spans_ordered ((c, d) # rest))"

section \<open>Range Transform\<close>

definition flatten :: "span list \<Rightarrow> pynum list" where
  "flatten spans = concat (map (\<lambda>(a, b). [a, b]) spans)"

text \<open>The scan \<^verbatim>\<open>for i in range(len(orig_c) - 1)\<close>: it stops at the first pair that
  holds the query, and otherwise leaves \<open>i\<close>, \<open>left\<close> and \<open>right\<close> at the last pair.
  With fewer than two breakpoints the body never runs and \<open>i\<close> stays unbound.\<close>

fun find_segment :: "nat \<Rightarrow> pynum list \<Rightarrow> pynum \<Rightarrow> (nat \<times> pynum \<times> pynum) option" where
  "find_segment i (left # right # rest) query =
     (if py_le left query \<and> py_le query right then Some (i, left, right)
      else if rest = [] then Some (i, left, right)
      else find_segment (Suc i) (right # rest) query)"
| "find_segment i [left] query = None"
| "find_segment i [] query = None"

definition transform :: "span list \<Rightarrow> span list \<Rightarrow> pynum \<Rightarrow> py_error + pynum" where
  "transform original scaled query =
     (let orig_c = flatten original; scal_c = flatten scaled in
      case find_segment 0 orig_c query of
        None \<Rightarrow> Inl UnboundLocalError
      | Some (i, left, right) \<Rightarrow>
          bind_err
            (if length scal_c > i + 2 then Inr (scal_c ! i, scal_c ! (i + 1))
             else if i < length scal_c then Inr (scal_c ! i, query)
             else Inl IndexError)
            (\<lambda>(n_left, n_right).
               let n_range = py_sub n_right n_left;
                   o_range = py_sub right left
               in if py_val o_range = 0 then Inr n_left
                  else bind_err (py_truediv (py_mul (py_sub query left) n_range) o_range)
                         (\<lambda>r. Inr (py_add r n_left))))"

section \<open>Curve generators\<close>

type_synonym junction = "pynum \<times> pynum \<times> int"

text \<open>What the generators add to the axes: a \<^verbatim>\<open>ConnectionPatch\<close> from \<open>xyA\<close> to \<open>xyB\<close>
  with the connection style \<^verbatim>\<open>"Arc3, rad=-" + str(rad)\<close> (the arc depth \<open>rad\<close> is kept as a
  number), and a \<^verbatim>\<open>PathPatch\<close> over the four vertices of a cubic curve.\<close>

datatype connection_patch = ConnectionPatch "pynum \<times> pynum" "pynum \<times> pynum" pynum

datatype path_patch = PathPatch "(pynum \<times> pynum) list"

definition radian_low :: pynum where
  "radian_low = PyFloat (fl (1 / 5))"

definition radian_high :: pynum where
  "radian_high = PyFloat (fl (2 / 5))"

definition radian_diff :: pynum where
  "radian_diff = py_sub radian_high radian_low"

text \<open>The four threshold checks of \<^verbatim>\<open>plot_SJ_curves\<close>, one after the other, each
  overwriting \<open>radian_corr\<close>. The divisors 8, 4, 2 and 1.2 are nonzero literals.\<close>

definition radian_correction :: "pynum \<Rightarrow> pynum \<Rightarrow> py_error + pynum" where
  "radian_correction arc_len xlen =
     bind_err (Inr (PyInt 1)) (\<lambda>c0.
     bind_err (if py_lt (py_quot xlen (PyInt 8)) arc_len
               then py_truediv (py_mul (PyInt 2) arc_len) xlen else Inr c0) (\<lambda>c1.
     bind_err (if py_lt (py_quot xlen (PyInt 4)) arc_len
               then py_truediv (py_mul (PyFloat (3 / 2)) arc_len) xlen else Inr c1) (\<lambda>c2.
     bind_err (if py_lt (py_quot xlen (PyInt 2)) arc_len
               then py_truediv arc_len xlen else Inr c2) (\<lambda>c3.
     (if py_lt (py_quot xlen (PyFloat (fl (6 / 5)))) arc_len
      then py_truediv (py_mul (PyFloat (fl (2 / 5))) arc_len) xlen else Inr c3)))))"

text \<open>The correction factor as the specification words it: a priority chain from the
  largest threshold down.\<close>

definition radian_correction_spec :: "pynum \<Rightarrow> pynum \<Rightarrow> py_error + pynum" where
  "radian_correction_spec arc_len xlen =
     (if py_lt (py_quot xlen (PyFloat (fl (6 / 5)))) arc_len
        then py_truediv (py_mul (PyFloat (fl (2 / 5))) arc_len) xlen
      else if py_lt (py_quot xlen (PyInt 2)) arc_len
        then py_truediv arc_len xlen
      else if py_lt (py_quot xlen (PyInt 4)) arc_len
        then py_truediv (py_mul (PyFloat (3 / 2)) arc_len) xlen
      else if py_lt (py_quot xlen (PyInt 8)) arc_len
        then py_truediv (py_mul (PyInt 2) arc_len) xlen
      else Inr (PyInt 1))"

text \<open>The body of the junction loop of \<^verbatim>\<open>plot_SJ_curves\<close>: the patches it adds to the
  axes for one junction.\<close>

definition sj_junction ::
  "pynum \<Rightarrow> pynum \<Rightarrow> pynum \<Rightarrow> junction \<Rightarrow> py_error + connection_patch list" where
  "sj_junction step_denominator xlen y j =
     (case j of (start, stop, counts) \<Rightarrow>
        if counts \<noteq> 0 then
          bind_err (radian_correction (py_sub stop start) xlen) (\<lambda>radian_corr.
          bind_err (py_truediv (PyInt 1) (py_mul (PyInt counts) step_denominator)) (\<lambda>step.
          bind_err (arange radian_low radian_high step) (\<lambda>rs.
            Inr (map (\<lambda>radians. ConnectionPatch (start, y) (stop, y)
                                  (py_mul (PyFloat radians) radian_corr)) rs))))
        else Inr [])"

definition plot_SJ_curves ::
  "pynum \<times> pynum \<Rightarrow> junction list \<Rightarrow> pynum \<Rightarrow> py_error + connection_patch list" where
  "plot_SJ_curves xlim coordinates y =
     bind_err (py_truediv (PyInt 1) radian_diff) (\<lambda>step_denominator.
       let xlen = py_sub (snd xlim) (fst xlim) in
       bind_err (map_err (sj_junction step_denominator xlen y) coordinates) (\<lambda>ps.
         Inr (concat ps)))"

definition draw_backsplice ::
  "pynum \<times> pynum \<Rightarrow> pynum \<Rightarrow> pynum \<Rightarrow> pynum \<Rightarrow> pynum \<Rightarrow> pynum \<Rightarrow> pynum \<Rightarrow> path_patch" where
  "draw_backsplice ylim start stop y adjust bezier_offset gene_size =
     (let space = py_sub (snd ylim) (fst ylim);
          size_adjust = py_quot gene_size (PyInt 20)
      in PathPatch
           [(start, y),
            (py_sub start size_adjust, py_sub (py_sub y (py_mul bezier_offset space)) adjust),
            (py_add stop size_adjust, py_sub (py_sub y (py_mul bezier_offset space)) adjust),
            (stop, y)])"

text \<open>The depth offsets \<^verbatim>\<open>arange(0.0, 0.5, step)\<close> of one backsplice junction.\<close>

definition backsplice_offsets :: "int \<Rightarrow> py_error + rat list" where
  "backsplice_offsets counts =
     bind_err (py_truediv (PyInt 1) (py_mul (PyInt counts) (PyInt 2))) (\<lambda>step.
       arange (PyFloat 0) (PyFloat (1 / 2)) step)"

definition circle_junction ::
  "pynum \<times> pynum \<Rightarrow> pynum \<Rightarrow> pynum \<Rightarrow> junction \<Rightarrow> py_error + path_patch list" where
  "circle_junction ylim y gene_size j =
     (case j of (start, stop, counts) \<Rightarrow>
        if counts \<noteq> 0 then
          bind_err (backsplice_offsets counts) (\<lambda>nums.
            Inr (map (\<lambda>num. draw_backsplice ylim start stop y (PyFloat num)
                               (PyFloat (fl (3 / 20))) gene_size) nums))
        else Inr [])"

definition plot_circles ::
  "pynum \<times> pynum \<Rightarrow> junction list \<Rightarrow> pynum \<Rightarrow> pynum \<Rightarrow> py_error + path_patch list" where
  "plot_circles ylim coordinates y gene_size =
     bind_err (map_err (circle_junction ylim y gene_size) coordinates) (\<lambda>ps. Inr (concat ps))"

section \<open>Count reduction and coverage colours\<close>

text \<open>\<^verbatim>\<open>if args.reduce_canonical: canonical = [(i, j, k // d) for i, j, k in canonical]\<close>:
  an absent divisor and the divisor 0 are both false. Python's \<^verbatim>\<open>//\<close> on integers
  is the floor of the quotient, as \<open>div\<close> on \<open>int\<close> is.\<close>

definition reduce_counts :: "int option \<Rightarrow> junction list \<Rightarrow> junction list" where
  "reduce_counts d js =
     (case d of
        None \<Rightarrow> js
      | Some d \<Rightarrow> if d = 0 then js else map (\<lambda>(i, j, k). (i, j, k div d)) js)"

text \<open>The normalisation loop: the largest \<^verbatim>\<open>max(coverage)\<close> over the samples, starting
  from 0.\<close>

fun highest_loop :: "pynum \<Rightarrow> pynum list list \<Rightarrow> py_error + pynum" where
  "highest_loop highest [] = Inr highest"
| "highest_loop highest (coverage # samples) =
     bind_err (py_max coverage) (\<lambda>max_coverage.
       highest_loop (if py_lt highest max_coverage then max_coverage else highest) samples)"

text \<open>The body of the colour loop for one sample: \<open>color\<close> is the RGB tuple
  \<^verbatim>\<open>args.color\<close>, extended by the alpha of each coverage value.\<close>

definition max_coverage_of :: "bool \<Rightarrow> pynum \<Rightarrow> pynum list \<Rightarrow> py_error + pynum" where
  "max_coverage_of normalize_opt highest coverage =
     (if normalize_opt then Inr highest else py_max coverage)"

definition sample_color ::
  "bool \<Rightarrow> pynum \<Rightarrow> pynum list \<Rightarrow> pynum list \<Rightarrow> py_error + pynum list list" where
  "sample_color normalize_opt highest color coverage =
     bind_err (max_coverage_of normalize_opt highest coverage) (\<lambda>max_coverage.
       if py_val max_coverage \<noteq> 0
       then map_err (\<lambda>i. bind_err (py_truediv i max_coverage) (\<lambda>a. Inr (color @ [a]))) coverage
       else Inr (map (\<lambda>i. color @ [PyInt 0]) coverage))"

section \<open>Notions used in the statements\<close>

text \<open>The numbers a span list denotes, without their Python types.\<close>

definition span_vals :: "span list \<Rightarrow> (rat \<times> rat) list" where
  "span_vals spans = map (\<lambda>(a, b). (py_val a, py_val b)) spans"

text \<open>The value a \<^verbatim>\<open>defaultdict(int)\<close> holds for a key: 0 for an absent one.\<close>

definition dict_get :: "(string \<times> int) list \<Rightarrow> string \<Rightarrow> int" where
  "dict_get d t = (case map_of d t of None \<Rightarrow> 0 | Some v \<Rightarrow> v)"

text \<open>The lengths \<open>stop - start\<close> of the spans, as exact numbers.\<close>

definition span_lengths :: "span list \<Rightarrow> rat list" where
  "span_lengths spans = map (\<lambda>(a, b). py_val b - py_val a) spans"

text \<open>A new span keeps the length of an integer span up to the rounding of one float
  addition: the new stop is the binary64 nearest to the new start plus the length.\<close>

definition length_kept :: "span \<Rightarrow> int \<times> int \<Rightarrow> bool" where
  "length_kept new old =
     (\<bar>(py_val (snd new) - py_val (fst new)) - of_int (snd old - fst old)\<bar>
        \<le> \<bar>py_val (fst new) + of_int (snd old - fst old)\<bar> / 2 ^ 53)"

text \<open>A value a binary64 holds exactly: a float that is its own rounding, or an integer
  of at most 53 bits.\<close>

fun is_double :: "pynum \<Rightarrow> bool" where
  "is_double (PyInt n) = (\<bar>n\<bar> \<le> 2 ^ 53)"
| "is_double (PyFloat x) = (fl x = x)"

text \<open>The float \<^verbatim>\<open>(0.5 - 0.0) / step\<close> of a backsplice junction, with
  \<^verbatim>\<open>step = 1 / (counts * 2)\<close>: \<^verbatim>\<open>numpy.arange\<close> takes its ceiling as the number of depth
  offsets. In exact arithmetic it is \<open>counts\<close>.\<close>

definition backsplice_quotient :: "int \<Rightarrow> rat" where
  "backsplice_quotient counts =
     py_val (py_quot (py_sub (PyFloat (1 / 2)) (PyFloat 0))
                     (py_quot (PyInt 1) (py_mul (PyInt counts) (PyInt 2))))"

text \<open>The curves of one backsplice junction in closed form: one curve per depth offset
  \<open>i * step\<close> for \<open>i = 0, \<dots>, counts - 1\<close>, where \<open>step\<close> is the float \<open>1 / (2 * counts)\<close>
  and the product is a float product; these are \<open>counts\<close> curves, the first at offset 0.0.\<close>

definition backsplice_curves ::
  "pynum \<times> pynum \<Rightarrow> pynum \<Rightarrow> pynum \<Rightarrow> junction \<Rightarrow> path_patch list" where
  "backsplice_curves ylim y gene_size j =
     (case j of (start, stop, counts) \<Rightarrow>
        map (\<lambda>i. draw_backsplice ylim start stop y
                    (py_mul (PyInt (int i)) (py_quot (PyInt 1) (PyInt (2 * counts))))
                    (PyFloat (fl (3 / 20))) gene_size)
            [0..<nat counts])"

text \<open>The float \<^verbatim>\<open>(radian_high - radian_low) / step\<close> of a canonical junction, with
  \<^verbatim>\<open>step = 1 / (counts * step_denominator)\<close> and \<^verbatim>\<open>step_denominator = 5.0\<close>:
  \<^verbatim>\<open>numpy.arange\<close> takes its ceiling as the number of arcs. In exact arithmetic it
  is \<open>counts\<close>.\<close>

definition sj_quotient :: "int \<Rightarrow> rat" where
  "sj_quotient counts =
     py_val (py_quot (py_sub radian_high radian_low)
                     (py_quot (PyInt 1) (py_mul (PyInt counts) (PyFloat 5))))"

text \<open>Spans that follow a point \<open>p\<close> in order, without overlap.\<close>

fun chain_from :: "pynum \<Rightarrow> span list \<Rightarrow> bool" where
  "chain_from p [] = True"
| "chain_from p ((a, b) # rest) = (py_le p a \<and> py_le a b \<and> chain_from b rest)"

section \<open>Properties of binary64 rounding\<close>

lemma round_even_of_int: "round_even (of_int n) = n"
  by (simp add: round_even_def)

lemma round_even_floor: "\<lfloor>y\<rfloor> \<le> round_even y \<and> round_even y \<le> \<lfloor>y\<rfloor> + 1"
  by (simp add: round_even_def Let_def)

lemma round_even_err: "\<bar>of_int (round_even y) - y\<bar> \<le> 1 / 2"
proof -
  have "of_int \<lfloor>y\<rfloor> \<le> y" "y < of_int \<lfloor>y\<rfloor> + 1"
    by linarith+
  then show ?thesis
    by (auto simp: round_even_def Let_def abs_le_iff)
qed

lemma round_even_mono:
  assumes "x \<le> y"
  shows "round_even x \<le> round_even y"
proof (cases "\<lfloor>x\<rfloor> = \<lfloor>y\<rfloor>")
  case True
  with assms show ?thesis
    by (auto simp: round_even_def Let_def)
next
  case False
  with assms have "\<lfloor>x\<rfloor> < \<lfloor>y\<rfloor>"
    by (simp add: floor_mono order.strict_iff_order)
  with round_even_floor [of x] round_even_floor [of y] show ?thesis
    by linarith
qed

lemma float_exp_bounds:
  assumes "x \<noteq> 0"
  shows "2 powi float_exp x \<le> \<bar>x\<bar>" and "\<bar>x\<bar> < 2 powi (float_exp x + 1)"
proof -
  have "2 powi float_exp x \<le> \<bar>x\<bar> \<and> \<bar>x\<bar> < 2 powi (float_exp x + 1)"
  proof (cases "1 \<le> \<bar>x\<bar>")
    case True
    define n where "n = \<lfloor>\<bar>x\<bar>\<rfloor>"
    have n: "0 < n" using True by (simp add: n_def)
    have e: "float_exp x = bitlen n - 1" using True by (simp add: float_exp_def n_def)
    from bitlen_bounds [OF n] have b: "2 ^ nat (bitlen n - 1) \<le> n" "n < 2 ^ nat (bitlen n)"
      by auto
    have bl: "1 \<le> bitlen n" using n bitlen_eq_zero_iff [of n] bitlen_nonneg [of n] by linarith
    have "(2::rat) powi (bitlen n - 1) = of_int (2 ^ nat (bitlen n - 1))"
      using bl by (simp add: power_int_nonneg_exp)
    also have "\<dots> \<le> of_int n" using b(1) by (simp only: of_int_le_iff)
    also have "\<dots> \<le> \<bar>x\<bar>" by (simp add: n_def)
    finally have lo: "2 powi float_exp x \<le> \<bar>x\<bar>" by (simp add: e)
    have "\<bar>x\<bar> < of_int (n + 1)" unfolding n_def by simp linarith
    also have "\<dots> \<le> of_int (2 ^ nat (bitlen n))"
      using b(2) by (simp only: of_int_le_iff)
    also have "\<dots> = (2::rat) powi (bitlen n)"
      using bl by (simp add: power_int_nonneg_exp)
    finally have "\<bar>x\<bar> < 2 powi (float_exp x + 1)" by (simp add: e)
    with lo show ?thesis by simp
  next
    case False
    define y where "y = 1 / \<bar>x\<bar>"
    define m where "m = \<lceil>y\<rceil> - 1"
    have xpos: "0 < \<bar>x\<bar>" using assms by simp
    have y1: "1 < y" using False xpos by (simp add: y_def)
    have m: "0 < m" using y1 by (simp add: m_def)
    have e: "float_exp x = - bitlen m" using False by (simp add: float_exp_def m_def y_def)
    from bitlen_bounds [OF m] have b: "2 ^ nat (bitlen m - 1) \<le> m" "m < 2 ^ nat (bitlen m)"
      by auto
    have bl: "1 \<le> bitlen m" using m bitlen_eq_zero_iff [of m] bitlen_nonneg [of m] by linarith
    have my: "of_int m < y" "y \<le> of_int m + 1"
      unfolding m_def by linarith+
    have "y \<le> of_int (m + 1)" using my by simp
    also have "\<dots> \<le> of_int (2 ^ nat (bitlen m))"
      using b(2) by (simp only: of_int_le_iff)
    also have "\<dots> = (2::rat) powi (bitlen m)"
      using bl by (simp add: power_int_nonneg_exp)
    finally have yle: "y \<le> 2 powi (bitlen m)" .
    have "(2::rat) powi (bitlen m - 1) = of_int (2 ^ nat (bitlen m - 1))"
      using bl by (simp add: power_int_nonneg_exp)
    also have "\<dots> \<le> of_int m" using b(1) by (simp only: of_int_le_iff)
    also have "\<dots> < y" using my by simp
    finally have ylt: "2 powi (bitlen m - 1) < y" .
    have p1: "(0::rat) < 2 powi (bitlen m)" and p2: "(0::rat) < 2 powi (bitlen m - 1)"
      by simp_all
    have "2 powi (- bitlen m) = 1 / ((2::rat) powi (bitlen m))"
      by (simp add: power_int_minus_divide)
    also have "\<dots> \<le> 1 / y" using yle y1 by (simp add: frac_le)
    also have "\<dots> = \<bar>x\<bar>" by (simp add: y_def)
    finally have lo: "2 powi float_exp x \<le> \<bar>x\<bar>" by (simp add: e)
    have "\<bar>x\<bar> = 1 / y" by (simp add: y_def)
    also have "\<dots> < 1 / ((2::rat) powi (bitlen m - 1))"
      using ylt p2 by (simp add: frac_less2)
    also have "\<dots> = 2 powi (- (bitlen m - 1))" by (simp only: power_int_minus_divide)
    finally have "\<bar>x\<bar> < 2 powi (float_exp x + 1)" by (simp add: e)
    with lo show ?thesis by simp
  qed
  then show "2 powi float_exp x \<le> \<bar>x\<bar>" and "\<bar>x\<bar> < 2 powi (float_exp x + 1)"
    by simp_all
qed

lemma pow2_less_exp:
  assumes "(2::rat) powi a < 2 powi b"
  shows "a < b"
proof (rule ccontr)
  assume "\<not> a < b"
  then have "b \<le> a" by simp
  then have "(2::rat) powi b \<le> 2 powi a" by (intro power_int_increasing) simp_all
  with assms show False by simp
qed

lemma float_exp_unique:
  assumes "2 powi e \<le> \<bar>x\<bar>" and "\<bar>x\<bar> < 2 powi (e + 1)"
  shows "float_exp x = e"
proof -
  have x: "x \<noteq> 0"
  proof
    assume "x = 0"
    with assms(1) have "(2::rat) powi e \<le> 0" by simp
    moreover have "(0::rat) < 2 powi e" by simp
    ultimately show False by linarith
  qed
  from float_exp_bounds [OF x] assms
  have h: "(2::rat) powi e < 2 powi (float_exp x + 1)" "(2::rat) powi float_exp x < 2 powi (e + 1)"
    by linarith+
  from pow2_less_exp [OF h(1)] pow2_less_exp [OF h(2)] show ?thesis by linarith
qed

lemma pow2_le_exp:
  assumes "(2::rat) powi a \<le> 2 powi b"
  shows "a \<le> b"
proof (rule ccontr)
  assume "\<not> a \<le> b"
  then have "b < a" by simp
  then have "(2::rat) powi b < 2 powi a" by (intro power_int_strict_increasing) simp_all
  with assms show False by simp
qed

lemma fl_zero: "fl 0 = 0"
  by (simp add: fl_def)

lemma fl_unfold:
  "x \<noteq> 0 \<Longrightarrow> fl x = of_int (round_even (x / 2 powi (float_exp x - 52))) * 2 powi (float_exp x - 52)"
  by (simp add: fl_def Let_def)

lemma fl_err: "\<bar>fl x - x\<bar> \<le> \<bar>x\<bar> / 2 ^ 53"
proof (cases "x = 0")
  case True
  then show ?thesis by (simp add: fl_zero)
next
  case False
  define e where "e = float_exp x"
  define u :: rat where "u = 2 powi (e - 52)"
  have u: "0 < u" by (simp add: u_def)
  have "fl x - x = (of_int (round_even (x / u)) - x / u) * u"
    using False u by (simp add: fl_unfold e_def u_def algebra_simps)
  then have "\<bar>fl x - x\<bar> = \<bar>of_int (round_even (x / u)) - x / u\<bar> * u"
    using u by (simp add: abs_mult)
  also have "\<dots> \<le> 1 / 2 * u"
    using round_even_err [of "x / u"] u by (intro mult_right_mono) simp_all
  also have "\<dots> = 2 powi e / 2 ^ 53"
    by (simp add: u_def power_int_diff)
  also have "\<dots> \<le> \<bar>x\<bar> / 2 ^ 53"
    using float_exp_bounds(1) [OF False] by (simp add: e_def divide_right_mono)
  finally show ?thesis .
qed

lemma fl_repr:
  assumes "\<bar>m\<bar> \<le> 2 ^ 53"
  shows "fl (of_int m * 2 powi k) = of_int m * 2 powi k"
proof (cases "m = 0")
  case True
  then show ?thesis by (simp add: fl_zero)
next
  case False
  define x :: rat where "x = of_int m * 2 powi k"
  define e where "e = float_exp x"
  have x: "x \<noteq> 0" using False by (simp add: x_def)
  have ax: "\<bar>x\<bar> = of_int \<bar>m\<bar> * 2 powi k"
    by (simp add: x_def abs_mult)
  have "of_int \<bar>m\<bar> \<le> (2::rat) ^ 53"
    using assms by (metis of_int_le_iff of_int_numeral of_int_power)
  then have "\<bar>x\<bar> \<le> 2 ^ 53 * 2 powi k"
    unfolding ax by (intro mult_right_mono) simp_all
  also have "\<dots> = 2 powi (53 + k)"
    by (simp add: power_int_add)
  finally have up: "\<bar>x\<bar> \<le> 2 powi (53 + k)" .
  with float_exp_bounds(1) [OF x] have "(2::rat) powi e \<le> 2 powi (53 + k)"
    by (simp add: e_def)
  then have ek: "e \<le> 53 + k" by (rule pow2_le_exp)
  show ?thesis
  proof (cases "e = 53 + k")
    case True
    with float_exp_bounds(1) [OF x] up have "\<bar>x\<bar> = 2 powi (53 + k)"
      by (simp add: e_def)
    then have "of_int \<bar>m\<bar> * (2::rat) powi k = 2 ^ 53 * 2 powi k"
      by (simp add: ax power_int_add)
    then have "(of_int \<bar>m\<bar> :: rat) = 2 ^ 53" by simp
    then have "(of_int \<bar>m\<bar> :: rat) = of_int (2 ^ 53)" by simp
    then have am: "\<bar>m\<bar> = 2 ^ 53" by (simp only: of_int_eq_iff)
    then have "m = 2 ^ 53 \<or> m = - (2 ^ 53)" by linarith
    then have "even m" by auto
    then have ev: "m = 2 * (m div 2)" by simp
    have e52: "e - 52 = k + 1" using True by simp
    have "x / 2 powi (e - 52) = of_int m * 2 powi k / 2 powi (k + 1)"
      by (simp only: x_def e52)
    also have "\<dots> = of_int m / 2"
      by (simp add: power_int_add)
    also have "\<dots> = of_int (m div 2)"
      by (subst ev) simp
    finally have q: "x / 2 powi (e - 52) = of_int (m div 2)" .
    have "fl x = of_int (round_even (x / 2 powi (e - 52))) * 2 powi (e - 52)"
      unfolding e_def by (rule fl_unfold [OF x])
    also have "\<dots> = of_int (m div 2) * 2 powi (k + 1)"
      by (simp only: q round_even_of_int) (simp only: e52)
    also have "\<dots> = of_int (2 * (m div 2)) * 2 powi k"
      by (simp add: power_int_add)
    also have "\<dots> = x" using ev by (simp add: x_def)
    finally show ?thesis by (simp add: x_def)
  next
    case False
    with ek have d: "0 \<le> k - (e - 52)" by simp
    have "x / 2 powi (e - 52) = of_int m * 2 powi (k - (e - 52))"
      by (simp add: x_def power_int_diff)
    also have "\<dots> = of_int (m * 2 ^ nat (k - (e - 52)))"
      using d by (simp add: power_int_nonneg_exp)
    finally have q: "x / 2 powi (e - 52) = of_int (m * 2 ^ nat (k - (e - 52)))" .
    have "fl x = of_int (round_even (x / 2 powi (e - 52))) * 2 powi (e - 52)"
      unfolding e_def by (rule fl_unfold [OF x])
    also have "\<dots> = of_int (m * 2 ^ nat (k - (e - 52))) * 2 powi (e - 52)"
      by (simp only: q round_even_of_int)
    also have "\<dots> = of_int m * 2 powi (k - (e - 52)) * 2 powi (e - 52)"
      using d by (simp add: power_int_nonneg_exp)
    also have "\<dots> = of_int m * 2 powi k"
      by (simp add: power_int_diff)
    finally show ?thesis by (simp add: x_def)
  qed
qed

lemma fl_of_int:
  assumes "\<bar>n\<bar> \<le> 2 ^ 53"
  shows "fl (of_int n) = of_int n"
  using fl_repr [OF assms, of 0] by simp

lemma round_even_minus: "round_even (- y) = - round_even y"
proof (cases "y = of_int \<lfloor>y\<rfloor>")
  case True
  then obtain n where "y = of_int n" ..
  then have "- y = of_int (- n)" by simp
  then show ?thesis using \<open>y = of_int n\<close> by (simp only: round_even_of_int)
next
  case False
  have "\<lfloor>- y\<rfloor> = - \<lceil>y\<rceil>" by (simp add: ceiling_def)
  also have "\<dots> = - \<lfloor>y\<rfloor> - 1" using False by (simp add: ceiling_altdef)
  finally have f: "\<lfloor>- y\<rfloor> = - \<lfloor>y\<rfloor> - 1" .
  show ?thesis
    unfolding round_even_def Let_def f by auto
qed

lemma float_exp_minus: "float_exp (- x) = float_exp x"
  by (simp add: float_exp_def)

lemma fl_minus: "fl (- x) = - fl x"
proof (cases "x = 0")
  case True
  then show ?thesis by (simp add: fl_zero)
next
  case False
  then show ?thesis
    by (simp add: fl_unfold float_exp_minus round_even_minus)
qed

lemma fl_pos_bounds:
  assumes "0 < x"
  shows "2 powi float_exp x \<le> fl x" and "fl x \<le> 2 powi (float_exp x + 1)"
proof -
  define e where "e = float_exp x"
  define u :: rat where "u = 2 powi (e - 52)"
  have x: "x \<noteq> 0" using assms by simp
  have u: "0 < u" by (simp add: u_def)
  have f: "fl x = of_int (round_even (x / u)) * u"
    unfolding u_def e_def by (rule fl_unfold [OF x])
  from float_exp_bounds [OF x] assms have b: "2 powi e \<le> x" "x < 2 powi (e + 1)"
    by (simp_all add: e_def)
  have p1: "(2::rat) powi e = 2 ^ 52 * u" by (simp add: u_def power_int_diff)
  have p2: "(2::rat) powi (e + 1) = 2 ^ 53 * u" by (simp add: u_def power_int_diff power_int_add)
  have "of_int (2 ^ 52) \<le> x / u" using b(1) u by (simp add: p1 pos_le_divide_eq)
  from round_even_mono [OF this] have lo: "2 ^ 52 \<le> round_even (x / u)"
    by (simp only: round_even_of_int)
  have "x / u \<le> of_int (2 ^ 53)" using b(2) u by (simp add: p2 pos_divide_le_eq)
  from round_even_mono [OF this] have hi: "round_even (x / u) \<le> 2 ^ 53"
    by (simp only: round_even_of_int)
  have "(2::rat) ^ 52 = of_int (2 ^ 52)" by simp
  also have "\<dots> \<le> of_int (round_even (x / u))" using lo by (simp only: of_int_le_iff)
  finally have "2 ^ 52 * u \<le> of_int (round_even (x / u)) * u"
    using u by (intro mult_right_mono) simp_all
  then show "2 powi float_exp x \<le> fl x" by (simp add: f p1 [unfolded e_def] e_def [symmetric] p1)
  have "of_int (round_even (x / u)) \<le> (of_int (2 ^ 53) :: rat)" using hi by (simp only: of_int_le_iff)
  also have "\<dots> = 2 ^ 53" by simp
  finally have "of_int (round_even (x / u)) * u \<le> 2 ^ 53 * u"
    using u by (intro mult_right_mono) simp_all
  then show "fl x \<le> 2 powi (float_exp x + 1)" by (simp add: f e_def [symmetric] p2)
qed

lemma fl_mono_pos:
  assumes "0 < x" and "x \<le> y"
  shows "fl x \<le> fl y"
proof -
  have y: "0 < y" using assms by simp
  have x0: "x \<noteq> 0" and y0: "y \<noteq> 0" using assms by simp_all
  from float_exp_bounds [OF x0] float_exp_bounds [OF y0] assms y
  have "(2::rat) powi float_exp x < 2 powi (float_exp y + 1)" by simp
  then have "float_exp x < float_exp y + 1" by (rule pow2_less_exp)
  then consider "float_exp x = float_exp y" | "float_exp x + 1 \<le> float_exp y" by linarith
  then show ?thesis
  proof cases
    case 1
    define u :: rat where "u = 2 powi (float_exp x - 52)"
    have u: "0 < u" by (simp add: u_def)
    have "x / u \<le> y / u" using assms(2) u by (simp add: divide_right_mono)
    from round_even_mono [OF this]
    have "(of_int (round_even (x / u)) :: rat) \<le> of_int (round_even (y / u))"
      by (simp only: of_int_le_iff)
    then have "of_int (round_even (x / u)) * u \<le> of_int (round_even (y / u)) * u"
      using u by (intro mult_right_mono) simp_all
    then show ?thesis
      using x0 y0 by (simp add: fl_unfold 1 [symmetric] u_def)
  next
    case 2
    have "fl x \<le> 2 powi (float_exp x + 1)" by (rule fl_pos_bounds(2) [OF assms(1)])
    also have "\<dots> \<le> 2 powi float_exp y" using 2 by (intro power_int_increasing) simp_all
    also have "\<dots> \<le> fl y" by (rule fl_pos_bounds(1) [OF y])
    finally show ?thesis .
  qed
qed

lemma fl_nonneg: "0 \<le> x \<Longrightarrow> 0 \<le> fl x"
proof (cases "x = 0")
  case True
  then show ?thesis by (simp add: fl_zero)
next
  case False
  assume "0 \<le> x"
  with False have x: "0 < x" by simp
  have "(0::rat) < 2 powi float_exp x" by simp
  with fl_pos_bounds(1) [OF x] show ?thesis by linarith
qed

lemma fl_mono:
  assumes "x \<le> y"
  shows "fl x \<le> fl y"
proof -
  consider "0 < x" | "x \<le> 0" "0 \<le> y" | "y < 0" using assms by linarith
  then show ?thesis
  proof cases
    case 1
    then show ?thesis using assms by (rule fl_mono_pos)
  next
    case 2
    have "0 \<le> fl (- x)" using 2(1) by (intro fl_nonneg) simp
    then have "fl x \<le> 0" by (simp add: fl_minus)
    also have "\<dots> \<le> fl y" using 2(2) by (rule fl_nonneg)
    finally show ?thesis .
  next
    case 3
    have "fl (- y) \<le> fl (- x)" using 3 assms by (intro fl_mono_pos) simp_all
    then show ?thesis by (simp add: fl_minus)
  qed
qed

lemma fl_idem: "fl (fl x) = fl x"
proof (cases "x = 0")
  case True
  then show ?thesis by (simp add: fl_zero)
next
  case False
  define u :: rat where "u = 2 powi (float_exp x - 52)"
  define q where "q = x / u"
  define r where "r = round_even q"
  have u: "0 < u" by (simp add: u_def)
  have f: "fl x = of_int r * 2 powi (float_exp x - 52)"
    unfolding r_def q_def u_def by (rule fl_unfold [OF False])
  have "\<bar>x\<bar> < 2 powi (float_exp x + 1)" by (rule float_exp_bounds(2) [OF False])
  also have "\<dots> = 2 ^ 53 * u" by (simp add: u_def power_int_diff power_int_add)
  finally have "\<bar>x\<bar> / u < 2 ^ 53" using u by (simp add: pos_divide_less_eq)
  then have "\<bar>q\<bar> < 2 ^ 53" using u by (simp add: q_def)
  then have "of_int (- (2 ^ 53)) \<le> q" "q \<le> of_int (2 ^ 53)"
    by (simp_all add: abs_less_iff)
  from round_even_mono [OF this(1)] round_even_mono [OF this(2)]
  have "- (2 ^ 53) \<le> r" "r \<le> 2 ^ 53"
    by (simp_all only: round_even_of_int r_def)
  then have "\<bar>r\<bar> \<le> 2 ^ 53" by simp
  from fl_repr [OF this] show ?thesis by (simp only: f)
qed

section \<open>The worked example of the Intron Scaler (C4)\<close>

text \<open>
  C4, as the code has it: on the exons \<open>[(100,150),(300,350)]\<close> with scale factor 2 the
  Intron Scaler returns \<open>[(100,150),(225.0,275.0)]\<close>: the intron of 150 bases is halved to
  75 and added to the end of the first exon, 150.
\<close>

theorem scale_introns_example:
  "scale_introns (int_spans [(100, 150), (300, 350)]) (PyFloat 2)
     = Inr [(PyInt 100, PyInt 150), (PyFloat 225, PyFloat 275)]"
  by code_simp

text \<open>
  C4 as the specification states it: the result is not \<open>[(100,150),(162.5,212.5)]\<close>.
\<close>

theorem scale_introns_example_spec_fails:
  "map_sum id span_vals (scale_introns (int_spans [(100, 150), (300, 350)]) (PyFloat 2))
     \<noteq> Inr [(100, 150), (325 / 2, 425 / 2)]"
  by code_simp

section \<open>Range Transform on equal spaces (C2)\<close>

text \<open>
  On a segment that is not the last one the transform of a space onto itself returns the
  query, here 5 inside the first exon.
\<close>

lemma transform_first_segment:
  "transform (int_spans [(0, 10), (20, 30)]) (int_spans [(0, 10), (20, 30)]) (PyInt 5)
     = Inr (PyFloat 5)"
  by code_simp

lemma find_segment_nth:
  assumes "find_segment k xs q = Some (i, l, r)"
  shows "\<exists>j. i = k + j \<and> j + 1 < length xs \<and> l = xs ! j \<and> r = xs ! (j + 1)
           \<and> (j + 2 < length xs \<longrightarrow> py_le l q \<and> py_le q r)"
  using assms
proof (induction k xs q rule: find_segment.induct)
  case (1 k left right rest query)
  show ?case
  proof (cases "(py_le left query \<and> py_le query right) \<or> rest = []")
    case True
    with "1.prems" have "i = k" "l = left" "r = right"
      "rest \<noteq> [] \<longrightarrow> py_le left query \<and> py_le query right"
      by (auto split: if_splits)
    then show ?thesis
      by (intro exI [of _ 0]) (cases rest; simp)
  next
    case False
    then have nf: "\<not> (py_le left query \<and> py_le query right)" and ne: "rest \<noteq> []"
      by simp_all
    from nf ne "1.prems" have "find_segment (Suc k) (right # rest) query = Some (i, l, r)"
      by (auto split: if_splits)
    from "1.IH" [OF nf ne this] obtain j where
      j: "i = Suc k + j" "j + 1 < length (right # rest)" "l = (right # rest) ! j"
         "r = (right # rest) ! (j + 1)"
         "j + 2 < length (right # rest) \<longrightarrow> py_le l query \<and> py_le query r"
      by blast
    show ?thesis
      using j by (intro exI [of _ "Suc j"]) simp
  qed
next
  case (2 i left query)
  then show ?case by simp
next
  case (3 i query)
  then show ?case by simp
qed

lemma flatten_int_spans:
  assumes "\<forall>(a, b) \<in> set S. \<bar>a\<bar> \<le> B \<and> \<bar>b\<bar> \<le> B" and "x \<in> set (flatten (int_spans S))"
  shows "\<exists>n. x = PyInt n \<and> \<bar>n\<bar> \<le> B"
  using assms by (auto simp: flatten_def int_spans_def)

text \<open>
  On equal integer spaces (coordinates of magnitude at most \<open>2^52\<close>), whenever the scan
  stops at a pair of breakpoints that is not the last one, the transform returns the
  query.
\<close>

lemma transform_inner_identity:
  assumes seg: "find_segment 0 (flatten (int_spans S)) (PyInt q) = Some (i, left, right)"
    and inner: "i + 2 < length (flatten (int_spans S))"
    and bq: "\<bar>q\<bar> \<le> 2 ^ 52"
    and bS: "\<forall>(a, b) \<in> set S. \<bar>a\<bar> \<le> 2 ^ 52 \<and> \<bar>b\<bar> \<le> 2 ^ 52"
  shows "map_sum id py_val (transform (int_spans S) (int_spans S) (PyInt q)) = Inr (of_int q)"
proof -
  let ?c = "flatten (int_spans S)"
  from find_segment_nth [OF seg] inner
  have n: "i + 1 < length ?c" "left = ?c ! i" "right = ?c ! (i + 1)"
    "py_le left (PyInt q)" "py_le (PyInt q) right"
    by auto
  from n(1,2) have "left \<in> set ?c" by simp
  from flatten_int_spans [OF bS this] obtain l where l: "left = PyInt l" "\<bar>l\<bar> \<le> 2 ^ 52"
    by blast
  from n(1,3) have "right \<in> set ?c" by simp
  from flatten_int_spans [OF bS this] obtain r where r: "right = PyInt r" "\<bar>r\<bar> \<le> 2 ^ 52"
    by blast
  from n(4,5) have ord: "l \<le> q" "q \<le> r" by (simp_all add: l r py_le_def)
  have ci: "?c ! i = PyInt l" "?c ! Suc i = PyInt r" "Suc (Suc i) < length ?c" "i < length ?c"
    using n(1,2,3) l(1) r(1) inner by simp_all
  show ?thesis
  proof (cases "r = l")
    case True
    with ord have ql: "q = l" by simp
    have "transform (int_spans S) (int_spans S) (PyInt q) = Inr (PyInt l)"
      using ci True by (simp add: transform_def Let_def seg bind_err_def l(1) r(1))
    then show ?thesis by (simp add: ql)
  next
    case False
    have b1: "\<bar>q - l\<bar> \<le> 2 ^ 53" and b2: "\<bar>l\<bar> \<le> 2 ^ 53" and b3: "\<bar>q\<bar> \<le> 2 ^ 53"
      using bq l(2) by simp_all
    have "(of_int ((q - l) * (r - l)) :: rat) / of_int (r - l) = of_int (q - l)"
      using False by simp
    then have d: "fl (of_int ((q - l) * (r - l)) / of_int (r - l)) = of_int (q - l)"
      by (simp only: fl_of_int [OF b1])
    have "fl (of_int (q - l) + fl (of_int l)) = fl (of_int q)"
      by (simp add: fl_of_int [OF b2])
    then have a: "fl (of_int (q - l) + fl (of_int l)) = of_int q"
      by (simp only: fl_of_int [OF b3])
    have "transform (int_spans S) (int_spans S) (PyInt q) = Inr (PyFloat (of_int q))"
      using ci False d a
      by (simp add: transform_def Let_def seg bind_err_def l(1) r(1) py_truediv_def)
    then show ?thesis by simp
  qed
qed

text \<open>
  C2 at a query inside the last exon: the test \<^verbatim>\<open>len(scal_c) > i + 2\<close> fails at the
  last pair of breakpoints, whatever the scaled list is, so \<open>n_right\<close> becomes the query
  itself and the transform of \<open>[(0,10),(20,30)]\<close> onto itself sends 25 to 22.5.
\<close>

theorem transform_last_segment:
  "transform (int_spans [(0, 10), (20, 30)]) (int_spans [(0, 10), (20, 30)]) (PyInt 25)
     = Inr (PyFloat (45 / 2))"
  by code_simp

section \<open>Arc-length correction (C6)\<close>

text \<open>
  C6: the four unconditional threshold checks, each overwriting the previous correction,
  compute the priority chain of the specification: \<open>0.4 * arc_len / xlen\<close> above
  \<open>xlen / 1.2\<close>, else \<open>arc_len / xlen\<close> above \<open>xlen / 2\<close>, else
  \<open>1.5 * arc_len / xlen\<close> above \<open>xlen / 4\<close>, else \<open>2 * arc_len / xlen\<close> above
  \<open>xlen / 8\<close>, else 1; a division by a zero \<open>xlen\<close> raises in both.
\<close>

theorem radian_correction_last_wins:
  "radian_correction arc_len xlen = radian_correction_spec arc_len xlen"
  by (simp add: radian_correction_def radian_correction_spec_def bind_err_def py_truediv_def)

section \<open>Count reduction (C10)\<close>

lemma concat_map_err_Cons:
  "bind_err (map_err f (a # zs)) (\<lambda>ps. Inr (concat ps))
     = bind_err (f a) (\<lambda>v. bind_err (bind_err (map_err f zs) (\<lambda>ps. Inr (concat ps)))
                                (\<lambda>c. Inr (v @ c)))"
  by (simp add: bind_err_def split: sum.splits)

lemma map_err_skip:
  assumes "f x = Inr []"
  shows "bind_err (map_err f (xs @ x # ys)) (\<lambda>ps. Inr (concat ps))
           = bind_err (map_err f (xs @ ys)) (\<lambda>ps. Inr (concat ps))"
proof (induction xs)
  case Nil
  show ?case
    using assms by (simp add: bind_err_def split: sum.splits)
next
  case (Cons a xs)
  show ?case
    unfolding append_Cons concat_map_err_Cons Cons.IH ..
qed

lemma sj_junction_zero: "sj_junction sd xlen y (i, j, 0) = Inr []"
  by (simp add: sj_junction_def)

lemma circle_junction_zero: "circle_junction ylim y g (i, j, 0) = Inr []"
  by (simp add: circle_junction_def)

lemma plot_SJ_curves_skip:
  "plot_SJ_curves xlim (js1 @ (i, j, 0) # js2) y = plot_SJ_curves xlim (js1 @ js2) y"
  by (cases "py_truediv (PyInt 1) radian_diff")
     (simp_all add: plot_SJ_curves_def bind_err_def Let_def
        map_err_skip [where f = "sj_junction sd xlen y" and x = "(i, j, 0)" for sd xlen y,
          OF sj_junction_zero, unfolded bind_err_def])

lemma plot_circles_skip:
  "plot_circles ylim (js1 @ (i, j, 0) # js2) y g = plot_circles ylim (js1 @ js2) y g"
  by (simp add: plot_circles_def
        map_err_skip [where f = "circle_junction ylim y g" and x = "(i, j, 0)", OF circle_junction_zero])

lemma reduce_counts_floor:
  "d \<noteq> 0 \<Longrightarrow>
     reduce_counts (Some d) js = map (\<lambda>(i, j, k). (i, j, \<lfloor>(of_int k :: rat) / of_int d\<rfloor>)) js"
  by (simp add: reduce_counts_def floor_divide_of_int_eq)

text \<open>
  C10: a supplied (nonzero) divisor \<open>d\<close> replaces every count \<open>k\<close> by the floor of
  \<open>k / d\<close>; a junction with \<open>0 < c < d\<close> gets count 0, and both curve generators then
  draw what they draw for the junction list without it.
\<close>

theorem count_reduction:
  assumes "d \<noteq> 0"
  shows "reduce_counts (Some d) js
           = map (\<lambda>(i, j, k). (i, j, \<lfloor>(of_int k :: rat) / of_int d\<rfloor>)) js
         \<and> (0 < c \<and> c < d \<longrightarrow>
              reduce_counts (Some d) (js1 @ (i, j, c) # js2)
                = reduce_counts (Some d) js1 @ (i, j, 0) # reduce_counts (Some d) js2
              \<and> plot_SJ_curves xlim (reduce_counts (Some d) (js1 @ (i, j, c) # js2)) y
                  = plot_SJ_curves xlim (reduce_counts (Some d) (js1 @ js2)) y
              \<and> plot_circles ylim (reduce_counts (Some d) (js1 @ (i, j, c) # js2)) y' g
                  = plot_circles ylim (reduce_counts (Some d) (js1 @ js2)) y' g)"
proof -
  have r: "reduce_counts (Some d) (xs @ ys) = reduce_counts (Some d) xs @ reduce_counts (Some d) ys"
    for xs ys
    using assms by (simp add: reduce_counts_def)
  have z: "reduce_counts (Some d) [(i, j, c)] = [(i, j, 0)]" if "0 < c" "c < d"
    using that assms by (simp add: reduce_counts_def)
  have c: "reduce_counts (Some d) (js1 @ (i, j, c) # js2)
             = reduce_counts (Some d) js1 @ (i, j, 0) # reduce_counts (Some d) js2"
    if "0 < c" "c < d"
    using r [of js1 "[(i, j, c)] @ js2"] r [of "[(i, j, c)]" js2] z [OF that] by simp
  show ?thesis
    using reduce_counts_floor [OF assms, of js] c
    by (auto simp: plot_SJ_curves_skip plot_circles_skip r)
qed

text \<open>The count reduction at divisor 3 on a junction of count 2, next to one of count 7.\<close>

theorem count_reduction_witness:
  "(3::int) \<noteq> 0 \<and> ((0::int) < 2 \<and> (2::int) < 3)
   \<and> (reduce_counts (Some 3) ([(PyInt 5, PyInt 9, 7)] @ (PyInt 1, PyInt 4, 2) # [])
        = reduce_counts (Some 3) [(PyInt 5, PyInt 9, 7)] @ (PyInt 1, PyInt 4, 0) # reduce_counts (Some 3) []
      \<and> plot_SJ_curves (PyFloat 0, PyFloat 100)
            (reduce_counts (Some 3) ([(PyInt 5, PyInt 9, 7)] @ (PyInt 1, PyInt 4, 2) # [])) (PyFloat 1)
          = plot_SJ_curves (PyFloat 0, PyFloat 100)
              (reduce_counts (Some 3) ([(PyInt 5, PyInt 9, 7)] @ [])) (PyFloat 1)
      \<and> plot_circles (PyFloat (- 1 / 4), PyFloat (7 / 4))
            (reduce_counts (Some 3) ([(PyInt 5, PyInt 9, 7)] @ (PyInt 1, PyInt 4, 2) # []))
            (PyFloat (1 / 2)) (PyInt 100)
          = plot_circles (PyFloat (- 1 / 4), PyFloat (7 / 4))
              (reduce_counts (Some 3) ([(PyInt 5, PyInt 9, 7)] @ [])) (PyFloat (1 / 2)) (PyInt 100))"
  (is "_ \<and> ?H \<and> ?Q")
proof -
  have d: "(3::int) \<noteq> 0" by simp
  have h: ?H by simp
  note t = count_reduction [OF d, where js = "[]" and c = 2 and ?js1.0 = "[(PyInt 5, PyInt 9, 7)]"
      and i = "PyInt 1" and j = "PyInt 4" and ?js2.0 = "[]" and xlim = "(PyFloat 0, PyFloat 100)"
      and y = "PyFloat 1" and ylim = "(PyFloat (- 1 / 4), PyFloat (7 / 4))"
      and y' = "PyFloat (1 / 2)" and g = "PyInt 100"]
  from t have "?H \<longrightarrow> ?Q" by (rule conjunct2)
  from this h have ?Q by (rule mp)
  with d h show ?thesis by blast
qed

section \<open>Gene to transcript resolution (C8)\<close>

lemma first_seen_set: "set (first_seen s ts) = set ts - set s"
  by (induction s ts rule: first_seen.induct) auto

lemma dict_add_keys:
  "map fst (dict_add d k v) = (if k \<in> set (map fst d) then map fst d else map fst d @ [k])"
  by (induction d k v rule: dict_add.induct) auto

lemma dict_add_distinct:
  "distinct (map fst d) \<Longrightarrow> distinct (map fst (dict_add d k v))"
  by (simp add: dict_add_keys)

lemma dict_add_get:
  "dict_get (dict_add d k v) t = dict_get d t + (if t = k then v else 0)"
  by (induction d k v rule: dict_add.induct) (auto simp: dict_get_def)

lemma first_seen_cong:
  "set s = set s' \<Longrightarrow> first_seen s ts = first_seen s' ts"
proof (induction ts arbitrary: s s')
  case Nil
  show ?case by simp
next
  case (Cons t ts)
  have "first_seen (t # s) ts = first_seen (t # s') ts"
    using Cons.prems by (intro Cons.IH) simp
  with Cons.prems show ?case
    by (simp add: Cons.IH [of s s'])
qed

lemma exonic_length_Cons:
  "exonic_length ((t', a, b) # rows) t = (if t' = t then 1 + (b - a) else 0) + exonic_length rows t"
  by (simp add: exonic_length_def)

lemma transcript_lengths_keys:
  "map fst (transcript_lengths d rows) = map fst d @ first_seen (map fst d) (map fst rows)"
proof (induction d rows rule: transcript_lengths.induct)
  case (1 d)
  show ?case by simp
next
  case (2 d transcript start stop rows)
  show ?case
  proof (cases "transcript \<in> set (map fst d)")
    case True
    then show ?thesis using 2 by (simp add: dict_add_keys)
  next
    case False
    have "first_seen (map fst d @ [transcript]) (map fst rows)
            = first_seen (transcript # map fst d) (map fst rows)"
      by (rule first_seen_cong) auto
    with False show ?thesis using 2 by (simp add: dict_add_keys)
  qed
qed

lemma transcript_lengths_distinct:
  "distinct (map fst d) \<Longrightarrow> distinct (map fst (transcript_lengths d rows))"
  by (induction d rows rule: transcript_lengths.induct) (simp_all add: dict_add_distinct)

lemma transcript_lengths_get:
  "dict_get (transcript_lengths d rows) t = dict_get d t + exonic_length rows t"
  by (induction d rows rule: transcript_lengths.induct)
     (simp_all add: dict_add_get exonic_length_Cons exonic_length_def[of "[]"])

lemma dict_get_entry:
  "distinct (map fst d) \<Longrightarrow> (t, l) \<in> set d \<Longrightarrow> dict_get d t = l"
  by (simp add: dict_get_def)

lemma dict_get_absent: "t \<notin> set (map fst d) \<Longrightarrow> dict_get d t = 0"
  by (simp add: dict_get_def map_of_eq_None_iff [THEN iffD2])

lemma longest_loop_bounded:
  "\<forall>(t, l) \<in> set items. l \<le> m \<Longrightarrow> longest_loop m longest items = longest"
  by (induction m longest items rule: longest_loop.induct) auto

lemma longest_loop_first_max:
  assumes "\<exists>(t, l) \<in> set items. m < l"
  shows "\<exists>pre len post. items = pre @ (longest_loop m longest items, len) # post
           \<and> m < len \<and> (\<forall>(t, l) \<in> set pre. l < len) \<and> (\<forall>(t, l) \<in> set post. l \<le> len)"
  using assms
proof (induction m longest items rule: longest_loop.induct)
  case (1 m longest)
  then show ?case by simp
next
  case (2 m longest transcript len items)
  show ?case
  proof (cases "m < len")
    case True
    note gt = True
    have r: "longest_loop m longest ((transcript, len) # items) = longest_loop len transcript items"
      using gt by simp
    show ?thesis
    proof (cases "\<exists>(t, l) \<in> set items. len < l")
      case True
      from "2.IH"(1) [OF _ True] gt obtain pre len' post where
        p: "items = pre @ (longest_loop len transcript items, len') # post" "len < len'"
           "\<forall>(t, l) \<in> set pre. l < len'" "\<forall>(t, l) \<in> set post. l \<le> len'"
        by auto
      show ?thesis unfolding r
      proof (intro exI conjI)
        show "(transcript, len) # items
                = ((transcript, len) # pre) @ (longest_loop len transcript items, len') # post"
          using p(1) by simp
        show "m < len'" using gt p(2) by simp
        show "\<forall>(t, l) \<in> set ((transcript, len) # pre). l < len'" using p(2,3) by auto
        show "\<forall>(t, l) \<in> set post. l \<le> len'" by (rule p(4))
      qed
    next
      case False
      then have b: "\<forall>(t, l) \<in> set items. l \<le> len" by auto
      then have r': "longest_loop len transcript items = transcript"
        by (rule longest_loop_bounded)
      show ?thesis unfolding r r'
      proof (intro exI conjI)
        show "(transcript, len) # items = [] @ (transcript, len) # items" by simp
        show "m < len" by (rule gt)
        show "\<forall>(t, l) \<in> set []. l < len" by simp
        show "\<forall>(t, l) \<in> set items. l \<le> len" by (rule b)
      qed
    qed
  next
    case False
    have r: "longest_loop m longest ((transcript, len) # items) = longest_loop m longest items"
      using False by simp
    from False "2.prems" have ex: "\<exists>(t, l) \<in> set items. m < l" by auto
    from "2.IH"(2) [OF False ex] obtain pre len' post where
      p: "items = pre @ (longest_loop m longest items, len') # post" "m < len'"
         "\<forall>(t, l) \<in> set pre. l < len'" "\<forall>(t, l) \<in> set post. l \<le> len'"
      by auto
    show ?thesis unfolding r
    proof (intro exI conjI)
      show "(transcript, len) # items
              = ((transcript, len) # pre) @ (longest_loop m longest items, len') # post"
        using p(1) by simp
      show "m < len'" by (rule p(2))
      show "\<forall>(t, l) \<in> set ((transcript, len) # pre). l < len'" using p(2,3) False by auto
      show "\<forall>(t, l) \<in> set post. l \<le> len'" by (rule p(4))
    qed
  qed
qed

text \<open>
  C8: when some transcript of the gene has a positive summed exonic length (every
  transcript has one when each of its rows has \<open>start \<le> stop\<close>), the resolver returns a
  transcript of the gene whose summed exonic length is maximal, and every transcript
  encountered before it is strictly shorter: of several longest transcripts the first one
  encountered is returned.
\<close>

theorem longest_transcript:
  assumes "\<exists>t. 0 < exonic_length rows t"
  shows "\<exists>pre post. first_seen [] (map fst rows) = pre @ get_transcript_from_gene rows # post
           \<and> (\<forall>t \<in> set pre. exonic_length rows t
                                  < exonic_length rows (get_transcript_from_gene rows))
           \<and> (\<forall>t \<in> set post. exonic_length rows t
                                  \<le> exonic_length rows (get_transcript_from_gene rows))"
proof -
  define items where "items = transcript_lengths [] rows"
  define r where "r = get_transcript_from_gene rows"
  have keys: "map fst items = first_seen [] (map fst rows)"
    using transcript_lengths_keys [of "[]" rows] by (simp add: items_def)
  have dist: "distinct (map fst items)"
    unfolding items_def by (rule transcript_lengths_distinct) simp
  have get: "dict_get items t = exonic_length rows t" for t
    using transcript_lengths_get [of "[]" rows t] by (simp add: items_def dict_get_def)
  have entry: "l = exonic_length rows t" if "(t, l) \<in> set items" for t l
    using dict_get_entry [OF dist that] get by simp
  from assms obtain t where t: "0 < exonic_length rows t" ..
  have "t \<in> set (map fst items)"
  proof (rule ccontr)
    assume "t \<notin> set (map fst items)"
    from dict_get_absent [OF this] get t show False by simp
  qed
  then obtain l where tl: "(t, l) \<in> set items" by auto
  with entry [OF tl] t have "\<exists>(t, l) \<in> set items. 0 < l" by auto
  from longest_loop_first_max [OF this, of "[]"] obtain pre len post where
    p: "items = pre @ (r, len) # post" "\<forall>(t, l) \<in> set pre. l < len"
       "\<forall>(t, l) \<in> set post. l \<le> len"
    unfolding r_def get_transcript_from_gene_def items_def by blast
  have len: "len = exonic_length rows r"
    by (rule entry) (simp add: p(1))
  have pre: "exonic_length rows t < exonic_length rows r" if "t \<in> set (map fst pre)" for t
  proof -
    from that obtain l where l: "(t, l) \<in> set pre" by auto
    then have "(t, l) \<in> set items" by (simp add: p(1))
    from entry [OF this] p(2) l len show ?thesis by auto
  qed
  have post: "exonic_length rows t \<le> exonic_length rows r" if "t \<in> set (map fst post)" for t
  proof -
    from that obtain l where l: "(t, l) \<in> set post" by auto
    then have "(t, l) \<in> set items" by (simp add: p(1))
    from entry [OF this] p(3) l len show ?thesis by auto
  qed
  have "first_seen [] (map fst rows) = map fst pre @ r # map fst post"
    using keys by (simp add: p(1))
  with pre post show ?thesis
    unfolding r_def by blast
qed

text \<open>Rows of exon spans with \<open>start \<le> stop\<close> give a positive summed length.\<close>

lemma exon_rows_positive:
  assumes "rows \<noteq> []" and "\<forall>(t, start, stop) \<in> set rows. start \<le> stop"
  shows "\<exists>t. 0 < exonic_length rows t"
proof -
  from assms(1) obtain t a b rest where rows: "rows = (t, a, b) # rest"
    by (cases rows) auto
  have "0 \<le> exonic_length rs t" if "\<forall>(t, start, stop) \<in> set rs. start \<le> stop" for rs
    using that by (induction rs) (auto simp: exonic_length_Cons exonic_length_def [of "[]"])
  from this [of rest] assms(2) have "0 < exonic_length rows t"
    by (simp add: rows exonic_length_Cons)
  then show ?thesis ..
qed

text \<open>Three transcripts of lengths 500, 800 and 800: the first of the two longest wins.\<close>

theorem longest_transcript_witness:
  "(\<exists>t. 0 < exonic_length [(''A'', 1, 500), (''B'', 1, 400), (''C'', 7, 806), (''B'', 501, 900)] t)
   \<and> get_transcript_from_gene [(''A'', 1, 500), (''B'', 1, 400), (''C'', 7, 806), (''B'', 501, 900)] = ''B''
   \<and> first_seen [] (map fst [(''A'', 1 :: int, 500 :: int), (''B'', 1, 400), (''C'', 7, 806), (''B'', 501, 900)])
       = [''A'', ''B'', ''C'']
   \<and> exonic_length [(''A'', 1, 500), (''B'', 1, 400), (''C'', 7, 806), (''B'', 501, 900)] ''A'' = 500
   \<and> exonic_length [(''A'', 1, 500), (''B'', 1, 400), (''C'', 7, 806), (''B'', 501, 900)] ''B'' = 800
   \<and> exonic_length [(''A'', 1, 500), (''B'', 1, 400), (''C'', 7, 806), (''B'', 501, 900)] ''C'' = 800
   \<and> (\<exists>pre post. [''A'', ''B'', ''C''] = pre @ ''B'' # post
         \<and> (\<forall>t \<in> set pre. exonic_length [(''A'', 1, 500), (''B'', 1, 400), (''C'', 7, 806), (''B'', 501, 900)] t < 800)
         \<and> (\<forall>t \<in> set post. exonic_length [(''A'', 1, 500), (''B'', 1, 400), (''C'', 7, 806), (''B'', 501, 900)] t \<le> 800))"
proof -
  let ?rows = "[(''A'', 1 :: int, 500 :: int), (''B'', 1, 400), (''C'', 7, 806), (''B'', 501, 900)]"
  have a: "exonic_length ?rows ''A'' = 500" by code_simp
  have b: "exonic_length ?rows ''B'' = 800" by code_simp
  have c: "exonic_length ?rows ''C'' = 800" by code_simp
  have g: "get_transcript_from_gene ?rows = ''B''" by code_simp
  have f: "first_seen [] (map fst ?rows) = [''A'', ''B'', ''C'']" by code_simp
  have h: "\<exists>t. 0 < exonic_length ?rows t" using b by (intro exI [of _ "''B''"]) simp
  from longest_transcript [OF h] show ?thesis
    unfolding g f b using h a b c by blast
qed

section \<open>Coverage colours (C9)\<close>

lemma map_err_Inr:
  "(\<And>x. x \<in> set xs \<Longrightarrow> f x = Inr (g x)) \<Longrightarrow> map_err f xs = Inr (map g xs)"
  by (induction xs) (simp_all add: bind_err_def)

lemma foldl_max_mem:
  "foldl (\<lambda>m v. if py_lt m v then v else m) x xs \<in> set (x # xs)"
  by (induction xs arbitrary: x) (simp, force split: if_splits)

lemma foldl_max_ge:
  "py_val x \<le> py_val (foldl (\<lambda>m v. if py_lt m v then v else m) x xs)
   \<and> (\<forall>v \<in> set xs. py_val v \<le> py_val (foldl (\<lambda>m v. if py_lt m v then v else m) x xs))"
proof (induction xs arbitrary: x)
  case Nil
  show ?case by simp
next
  case (Cons a xs)
  from Cons.IH [of a] Cons.IH [of x] show ?case
    by (auto simp: py_lt_def)
qed

lemma py_max_greatest:
  assumes "coverage \<noteq> []"
  shows "\<exists>m. py_max coverage = Inr m \<and> m \<in> set coverage
           \<and> (\<forall>v \<in> set coverage. py_val v \<le> py_val m)"
proof -
  from assms obtain x xs where c: "coverage = x # xs" by (cases coverage) auto
  show ?thesis
    unfolding c using foldl_max_mem [of x xs] foldl_max_ge [of x xs] by simp
qed

lemma py_quot_zero: "py_val i = 0 \<Longrightarrow> py_val (py_quot i m) = 0"
  by (cases i; cases m) (simp_all add: fl_zero)

text \<open>
  C9: for a sample with coverage values, the colour step divides only when the maximum
  coverage it uses (the sample's own \<^verbatim>\<open>max(coverage)\<close>, or \<open>highest\<close> under
  normalisation) is nonzero, and then the alpha of each position is its coverage divided
  by that maximum; when the maximum is 0 every alpha is the integer 0. When all coverage
  values are zero every alpha is zero, with no division error.
\<close>

theorem coverage_alpha:
  assumes "coverage \<noteq> []"
  shows "\<exists>max_coverage. max_coverage_of normalize_opt highest coverage = Inr max_coverage
           \<and> (normalize_opt \<longrightarrow> max_coverage = highest)
           \<and> (\<not> normalize_opt \<longrightarrow> max_coverage \<in> set coverage
                  \<and> (\<forall>v \<in> set coverage. py_val v \<le> py_val max_coverage))
           \<and> (py_val max_coverage = 0 \<longrightarrow>
                  sample_color normalize_opt highest color coverage
                    = Inr (map (\<lambda>i. color @ [PyInt 0]) coverage))
           \<and> (py_val max_coverage \<noteq> 0 \<longrightarrow>
                  sample_color normalize_opt highest color coverage
                    = Inr (map (\<lambda>i. color @ [py_quot i max_coverage]) coverage))
           \<and> ((\<forall>v \<in> set coverage. py_val v = 0) \<longrightarrow>
                  (\<exists>alphas. sample_color normalize_opt highest color coverage
                               = Inr (map (\<lambda>a. color @ [a]) alphas)
                     \<and> length alphas = length coverage \<and> (\<forall>a \<in> set alphas. py_val a = 0)))"
proof -
  from py_max_greatest [OF assms] obtain m where
    m: "py_max coverage = Inr m" "m \<in> set coverage" "\<forall>v \<in> set coverage. py_val v \<le> py_val m"
    by blast
  define mc where "mc = (if normalize_opt then highest else m)"
  have mc: "max_coverage_of normalize_opt highest coverage = Inr mc"
    by (simp add: max_coverage_of_def mc_def m(1))
  have zero: "sample_color normalize_opt highest color coverage
                = Inr (map (\<lambda>i. color @ [PyInt 0]) coverage)" if "py_val mc = 0"
    using that by (simp add: sample_color_def mc bind_err_def)
  have nonzero: "sample_color normalize_opt highest color coverage
                   = Inr (map (\<lambda>i. color @ [py_quot i mc]) coverage)" if "py_val mc \<noteq> 0"
  proof -
    have "map_err (\<lambda>i. bind_err (py_truediv i mc) (\<lambda>a. Inr (color @ [a]))) coverage
            = Inr (map (\<lambda>i. color @ [py_quot i mc]) coverage)"
      using that by (intro map_err_Inr) (simp add: py_truediv_def bind_err_def)
    then show ?thesis
      using that by (simp add: sample_color_def mc bind_err_def)
  qed
  have allzero: "\<exists>alphas. sample_color normalize_opt highest color coverage
                              = Inr (map (\<lambda>a. color @ [a]) alphas)
                   \<and> length alphas = length coverage \<and> (\<forall>a \<in> set alphas. py_val a = 0)"
    if z: "\<forall>v \<in> set coverage. py_val v = 0"
  proof (cases "py_val mc = 0")
    case True
    have "sample_color normalize_opt highest color coverage
            = Inr (map (\<lambda>a. color @ [a]) (map (\<lambda>i. PyInt 0) coverage))"
      using zero [OF True] by (simp add: comp_def)
    then show ?thesis by (intro exI [of _ "map (\<lambda>i. PyInt 0) coverage"]) simp
  next
    case False
    have "sample_color normalize_opt highest color coverage
            = Inr (map (\<lambda>a. color @ [a]) (map (\<lambda>i. py_quot i mc) coverage))"
      using nonzero [OF False] by (simp add: comp_def)
    then show ?thesis
      using z by (intro exI [of _ "map (\<lambda>i. py_quot i mc) coverage"]) (simp add: py_quot_zero)
  qed
  show ?thesis
    using mc m(2,3) zero nonzero allzero by (intro exI [of _ mc]) (simp add: mc_def)
qed

text \<open>The coverage arrays \<open>[0,0,0]\<close> and \<open>[1,4,2]\<close> on the colour red.\<close>

theorem coverage_alpha_witness:
  "[PyInt 0, PyInt 0, PyInt 0] \<noteq> []
   \<and> sample_color False (PyInt 0) [PyInt 1, PyInt 0, PyInt 0] [PyInt 0, PyInt 0, PyInt 0]
       = Inr [[PyInt 1, PyInt 0, PyInt 0, PyInt 0], [PyInt 1, PyInt 0, PyInt 0, PyInt 0],
              [PyInt 1, PyInt 0, PyInt 0, PyInt 0]]
   \<and> sample_color False (PyInt 0) [PyInt 1, PyInt 0, PyInt 0] [PyInt 1, PyInt 4, PyInt 2]
       = Inr [[PyInt 1, PyInt 0, PyInt 0, PyFloat (1 / 4)], [PyInt 1, PyInt 0, PyInt 0, PyFloat 1],
              [PyInt 1, PyInt 0, PyInt 0, PyFloat (1 / 2)]]
   \<and> (\<exists>max_coverage. max_coverage_of False (PyInt 0) [PyInt 0, PyInt 0, PyInt 0] = Inr max_coverage
         \<and> (py_val max_coverage = 0 \<longrightarrow>
               sample_color False (PyInt 0) [PyInt 1, PyInt 0, PyInt 0] [PyInt 0, PyInt 0, PyInt 0]
                 = Inr (map (\<lambda>i. [PyInt 1, PyInt 0, PyInt 0] @ [PyInt 0]) [PyInt 0, PyInt 0, PyInt 0])))"
proof -
  have h: "[PyInt 0, PyInt 0, PyInt 0] \<noteq> []" by simp
  have e1: "sample_color False (PyInt 0) [PyInt 1, PyInt 0, PyInt 0] [PyInt 0, PyInt 0, PyInt 0]
       = Inr [[PyInt 1, PyInt 0, PyInt 0, PyInt 0], [PyInt 1, PyInt 0, PyInt 0, PyInt 0],
              [PyInt 1, PyInt 0, PyInt 0, PyInt 0]]"
    by code_simp
  have e2: "sample_color False (PyInt 0) [PyInt 1, PyInt 0, PyInt 0] [PyInt 1, PyInt 4, PyInt 2]
       = Inr [[PyInt 1, PyInt 0, PyInt 0, PyFloat (1 / 4)], [PyInt 1, PyInt 0, PyInt 0, PyFloat 1],
              [PyInt 1, PyInt 0, PyInt 0, PyFloat (1 / 2)]]"
    by code_simp
  from coverage_alpha [OF h, of False "PyInt 0" "[PyInt 1, PyInt 0, PyInt 0]"]
  obtain mc where "max_coverage_of False (PyInt 0) [PyInt 0, PyInt 0, PyInt 0] = Inr mc"
    "py_val mc = 0 \<longrightarrow>
               sample_color False (PyInt 0) [PyInt 1, PyInt 0, PyInt 0] [PyInt 0, PyInt 0, PyInt 0]
                 = Inr (map (\<lambda>i. [PyInt 1, PyInt 0, PyInt 0] @ [PyInt 0]) [PyInt 0, PyInt 0, PyInt 0])"
    by blast
  with h e1 e2 show ?thesis by blast
qed

section \<open>Exon lengths under the Intron Scaler (C3)\<close>

lemma to_float_val: "is_double a \<Longrightarrow> to_float a = py_val a"
  by (cases a) (simp_all add: fl_of_int)

lemma py_quot_float: "\<exists>q. py_quot a b = PyFloat q \<and> fl q = q"
  by (cases a; cases b) (simp_all add: fl_idem)

lemma py_quot_nonneg:
  assumes "0 \<le> g" and "0 < py_val s"
  shows "0 \<le> py_val (py_quot (PyInt g) s)"
proof (cases s)
  case (PyInt k)
  with assms show ?thesis by (simp add: fl_nonneg)
next
  case (PyFloat x)
  with assms show ?thesis by (simp add: fl_nonneg)
qed

lemma int_spans_Cons: "int_spans ((a, b) # cs) = (PyInt a, PyInt b) # int_spans cs"
  by (simp add: int_spans_def)

lemma int_spans_Nil: "int_spans [] = []"
  by (simp add: int_spans_def)

lemma scale_loop_lengths:
  assumes "py_val s \<noteq> 0" and "\<forall>(a, b) \<in> set rest. \<bar>b - a\<bar> \<le> 2 ^ 53"
  shows "\<exists>new. scale_loop s e ne (int_spans rest) = Inr new \<and> list_all2 length_kept new rest"
  using assms(2)
proof (induction rest arbitrary: e ne)
  case Nil
  show ?case by (simp add: int_spans_Nil)
next
  case (Cons ab rest)
  obtain a b where ab: "ab = (a, b)" by (cases ab)
  from Cons.prems have bnd: "\<bar>b - a\<bar> \<le> 2 ^ 53" and rest: "\<forall>(a, b) \<in> set rest. \<bar>b - a\<bar> \<le> 2 ^ 53"
    by (simp_all add: ab)
  obtain q where q: "py_quot (py_sub (PyInt a) e) s = PyFloat q"
    using py_quot_float by blast
  define L where "L = fl (to_float ne + q)"
  define R where "R = fl (L + of_int (b - a))"
  have left: "py_add ne (PyFloat q) = PyFloat L"
    by (cases ne) (simp_all add: L_def)
  from Cons.IH [OF rest, of "PyInt b" "PyFloat R"] obtain new where
    new: "scale_loop s (PyInt b) (PyFloat R) (int_spans rest) = Inr new" "list_all2 length_kept new rest"
    by blast
  have "scale_loop s e ne (int_spans (ab # rest)) = Inr ((PyFloat L, PyFloat R) # new)"
    using assms(1) fl_of_int [OF bnd] new(1) left
    by (simp add: ab int_spans_Cons py_truediv_def bind_err_def q R_def L_def)
  moreover have "length_kept (PyFloat L, PyFloat R) ab"
    using fl_err [of "L + of_int (b - a)"] by (simp add: length_kept_def ab R_def algebra_simps)
  ultimately show ?case using new(2) by simp
qed

lemma pow2_shift: "(2::rat) powi k * 2 ^ n = 2 powi (k + int n)"
  by (simp add: power_int_add)

lemma pow2_shift_116: "(2::rat) powi (e - 52) * 2 ^ 116 = 2 powi (e + 64)"
proof -
  have "e - 52 + int 116 = e + 64" by simp
  with pow2_shift [of "e - 52" 116] show ?thesis by (simp only:)
qed

lemma fl_abs_le:
  assumes "\<bar>x\<bar> \<le> B" and "fl B = B"
  shows "\<bar>fl x\<bar> \<le> B"
proof -
  from assms(1) have "x \<le> B" "- B \<le> x" by simp_all
  from fl_mono [OF this(1)] fl_mono [OF this(2)] show ?thesis
    by (simp add: fl_minus assms(2) abs_le_iff)
qed

lemma grid_nonzero:
  fixes x :: rat
  assumes "x * 2 ^ 116 \<in> \<int>" and "x \<noteq> 0"
  shows "1 / 2 ^ 116 \<le> \<bar>x\<bar>"
proof -
  from assms(1) obtain m :: int where m: "x * 2 ^ 116 = of_int m" by (rule Ints_cases)
  with assms(2) have "m \<noteq> 0" by auto
  then have "1 \<le> \<bar>m\<bar>" by simp
  then have "(1::rat) \<le> \<bar>of_int m\<bar>" by (simp only: flip: of_int_abs)
  also have "\<dots> = \<bar>x\<bar> * 2 ^ 116" by (simp add: m [symmetric] abs_mult)
  finally show ?thesis by (simp add: field_simps)
qed

lemma fl_grid_big:
  assumes "1 / 2 ^ 64 \<le> \<bar>x\<bar>"
  shows "fl x * 2 ^ 116 \<in> \<int>"
proof -
  from assms have nz: "x \<noteq> 0" by auto
  define e where "e = float_exp x"
  have "(2::rat) powi (- 64) \<le> \<bar>x\<bar>" using assms by (simp add: power_int_minus divide_simps)
  also have "\<bar>x\<bar> < 2 powi (e + 1)" unfolding e_def by (rule float_exp_bounds(2) [OF nz])
  finally have "- 64 < e + 1" by (rule pow2_less_exp)
  then have e: "0 \<le> e + 64" by simp
  have "fl x * 2 ^ 116 = of_int (round_even (x / 2 powi (e - 52))) * (2 powi (e - 52) * 2 ^ 116)"
    by (simp only: fl_unfold [OF nz] e_def mult.assoc)
  also have "2 powi (e - 52) * 2 ^ 116 = (2::rat) powi (e + 64)"
    by (rule pow2_shift_116)
  also have "\<dots> = 2 ^ nat (e + 64)" using e by (simp add: power_int_def)
  finally show ?thesis by simp
qed

lemma fl_grid:
  assumes "x * 2 ^ 116 \<in> \<int>"
  shows "fl x * 2 ^ 116 \<in> \<int>"
proof (cases "x = 0")
  case True
  then show ?thesis by (simp add: fl_zero)
next
  case nz: False
  define e where "e = float_exp x"
  show ?thesis
  proof (cases "0 \<le> e + 64")
    case True
    have "fl x * 2 ^ 116 = of_int (round_even (x / 2 powi (e - 52))) * (2 powi (e - 52) * 2 ^ 116)"
      by (simp only: fl_unfold [OF nz] e_def mult.assoc)
    also have "2 powi (e - 52) * 2 ^ 116 = (2::rat) powi (e + 64)"
      by (rule pow2_shift_116)
    also have "\<dots> = 2 ^ nat (e + 64)" using True by (simp add: power_int_def)
    finally show ?thesis by simp
  next
    case False
    then have neg: "0 \<le> - (e + 64)" by simp
    from assms obtain m :: int where m: "x * 2 ^ 116 = of_int m" by (rule Ints_cases)
    have "(2::rat) powi (e - 52) * 2 ^ 116 * 2 ^ nat (- (e + 64)) = 2 powi (e + 64) * 2 ^ nat (- (e + 64))"
      by (simp only: pow2_shift_116)
    also have "\<dots> = 2 powi (e + 64 + int (nat (- (e + 64))))"
      by (rule pow2_shift)
    also have "\<dots> = 1" using neg by simp
    finally have inv: "(2::rat) ^ 116 * 2 ^ nat (- (e + 64)) = 1 / 2 powi (e - 52)"
      by (simp add: field_simps)
    have "x / 2 powi (e - 52) = x * (1 / 2 powi (e - 52))" by simp
    also have "\<dots> = x * (2 ^ 116 * 2 ^ nat (- (e + 64)))" by (simp only: inv)
    finally have "x / 2 powi (e - 52) = (x * 2 ^ 116) * 2 ^ nat (- (e + 64))"
      by (simp only: mult.assoc)
    then have "x / 2 powi (e - 52) = of_int (m * 2 ^ nat (- (e + 64)))"
      by (simp only: m of_int_mult of_int_power of_int_numeral)
    then have "of_int (round_even (x / 2 powi (e - 52))) = x / 2 powi (e - 52)"
      by (simp only: round_even_of_int)
    then have "fl x = x" by (simp add: fl_unfold [OF nz] e_def)
    with assms show ?thesis by simp
  qed
qed


lemma fl_nat_pow:
  assumes "j \<le> 2 ^ 53"
  shows "fl (of_nat j * 2 ^ n) = of_nat j * 2 ^ n"
proof -
  have "int j \<le> int (2 ^ 53)" using assms by (simp only: of_nat_le_iff)
  then have "\<bar>int j\<bar> \<le> 2 ^ 53" by simp
  from fl_repr [OF this, of "int n"] show ?thesis by simp
qed

lemma binary64_normalI:
  assumes "x = 0 \<or> (1 / 2 ^ 116 \<le> \<bar>x\<bar> \<and> \<bar>x\<bar> \<le> 2 ^ 160)"
  shows "binary64_normal x"
proof (cases "x = 0")
  case True
  then show ?thesis by (simp add: binary64_normal_def)
next
  case False
  with assms have b: "1 / 2 ^ 116 \<le> \<bar>x\<bar>" "\<bar>x\<bar> \<le> 2 ^ 160" by simp_all
  have "(2::rat) powi (- 1022) \<le> 1 / 2 ^ 116"
    by (simp add: power_int_minus divide_simps)
  from this b(1) have lo: "2 powi (- 1022) \<le> \<bar>x\<bar>" by (rule order_trans)
  have "(2::rat) ^ 160 \<le> 2 ^ 1023" by (rule power_increasing) simp_all
  with b(2) have "\<bar>x\<bar> \<le> 2 ^ 1023" by (rule order_trans)
  with lo show ?thesis unfolding binary64_normal_def by blast
qed

lemma quot_range:
  fixes \<sigma> :: rat
  assumes "\<bar>g\<bar> \<le> 2 ^ 53" and "1 / 2 ^ 64 \<le> \<bar>\<sigma>\<bar>" and "\<bar>\<sigma>\<bar> \<le> 2 ^ 64"
  shows "\<bar>of_int g / \<sigma>\<bar> \<le> 2 ^ 117" and "g \<noteq> 0 \<Longrightarrow> 1 / 2 ^ 64 \<le> \<bar>of_int g / \<sigma>\<bar>"
proof -
  define G :: rat where "G = \<bar>of_int g\<bar>"
  define S where "S = \<bar>\<sigma>\<bar>"
  have "\<bar>of_int g :: rat\<bar> = of_int \<bar>g\<bar>" by simp
  also have "\<dots> \<le> of_int (2 ^ 53)" using assms(1) by (simp only: of_int_le_iff)
  finally have G: "G \<le> 2 ^ 53" by (simp add: G_def)
  have S: "1 / 2 ^ 64 \<le> S" "S \<le> 2 ^ 64" "0 < S" using assms(2,3) by (simp_all add: S_def)
  have e: "\<bar>of_int g / \<sigma>\<bar> = G / S" by (simp add: G_def S_def)
  have "G \<le> 2 ^ 53 * (2 ^ 64 * S)"
  proof -
    have "1 \<le> 2 ^ 64 * S" using S(1) by (simp add: field_simps)
    then have "2 ^ 53 * 1 \<le> 2 ^ 53 * (2 ^ 64 * S)" by (intro mult_left_mono) simp_all
    with G show ?thesis by simp
  qed
  then have "G / S \<le> 2 ^ 117" using S(3) by (simp add: field_simps)
  then show "\<bar>of_int g / \<sigma>\<bar> \<le> 2 ^ 117" by (simp only: e)
  show "1 / 2 ^ 64 \<le> \<bar>of_int g / \<sigma>\<bar>" if "g \<noteq> 0"
  proof -
    from that have "1 \<le> \<bar>g\<bar>" by simp
    then have "(1::rat) \<le> of_int \<bar>g\<bar>" by (simp only: flip: of_int_1 [where 'a = rat])
    then have "1 \<le> G" by (simp add: G_def)
    with S(2) have "S \<le> 2 ^ 64 * G" by (simp add: mult_le_cancel_left1 order_trans [OF S(2)])
    then have "1 / 2 ^ 64 \<le> G / S" using S(3) by (simp add: field_simps)
    then show ?thesis by (simp only: e)
  qed
qed

lemma py_quot_exact: "py_quot a b = PyFloat (fl (exact_quot a b))"
  by (cases a; cases b) simp_all

lemma exact_quot_int:
  "\<bar>g\<bar> \<le> 2 ^ 53 \<Longrightarrow> exact_quot (PyInt g) s = of_int g / py_val s"
  by (cases s) (simp_all add: fl_of_int)

lemma grid_add:
  fixes x y :: rat
  assumes "x * 2 ^ 116 \<in> \<int>" and "y * 2 ^ 116 \<in> \<int>"
  shows "(x + y) * 2 ^ 116 \<in> \<int>"
proof -
  have "(x + y) * 2 ^ 116 = x * 2 ^ 116 + y * 2 ^ 116" by (rule distrib_right)
  with Ints_add [OF assms] show ?thesis by (simp only:)
qed

lemma grid_of_int: "(of_int n :: rat) * 2 ^ 116 \<in> \<int>"
proof -
  have "(of_int n :: rat) * 2 ^ 116 = of_int (n * 2 ^ 116)" by simp
  then show ?thesis by (simp only: Ints_of_int)
qed

lemma scale_loop_in_range:
  assumes "1 / 2 ^ 64 \<le> \<bar>py_val s\<bar>" and "\<bar>py_val s\<bar> \<le> 2 ^ 64"
    and "\<forall>(a, b) \<in> set rest. \<bar>a\<bar> \<le> 2 ^ 52 \<and> \<bar>b\<bar> \<le> 2 ^ 52"
    and "\<bar>eb\<bar> \<le> 2 ^ 52"
    and "is_double ne" and "py_val ne * 2 ^ 116 \<in> \<int>"
    and "\<bar>py_val ne\<bar> \<le> of_nat k * 2 ^ 120"
    and "k + length rest \<le> 2 ^ 32"
  shows "list_all binary64_normal (scale_loop_exact s (PyInt eb) ne (int_spans rest))"
  using assms(3-8)
proof (induction rest arbitrary: eb ne k)
  case Nil
  show ?case by (simp add: int_spans_Nil)
next
  case (Cons ab rest)
  obtain a b where ab: "ab = (a, b)" by (cases ab)
  from Cons.prems(1) have a: "\<bar>a\<bar> \<le> 2 ^ 52" and b: "\<bar>b\<bar> \<le> 2 ^ 52"
    and rest: "\<forall>(a, b) \<in> set rest. \<bar>a\<bar> \<le> 2 ^ 52 \<and> \<bar>b\<bar> \<le> 2 ^ 52"
    by (simp_all add: ab)
  note eb = Cons.prems(2) and dbl = Cons.prems(3) and neg = Cons.prems(4) and neb = Cons.prems(5)
  from Cons.prems(6) have k: "Suc k + length rest \<le> 2 ^ 32" and k32: "k \<le> 2 ^ 32" by simp_all
  define K :: rat where "K = of_nat k"
  have "(of_nat k :: rat) \<le> of_nat (2 ^ 32)" using k32 by (simp only: of_nat_le_iff)
  then have K: "0 \<le> K" "K \<le> 2 ^ 32" by (simp_all add: K_def)
  define g where "g = a - eb"
  have g: "\<bar>g\<bar> \<le> 2 ^ 53" using a eb by (simp add: g_def)
  have len: "\<bar>b - a\<bar> \<le> 2 ^ 53" using a b by simp
  define Q :: rat where "Q = of_int g / py_val s"
  define q where "q = fl Q"
  define Le where "Le = py_val ne + q"
  define L where "L = fl Le"
  define Re where "Re = L + of_int (b - a)"
  define R where "R = fl Re"
  note qr = quot_range [OF g assms(1,2)]
  have Qb: "\<bar>Q\<bar> \<le> 2 ^ 117" using qr(1) by (simp only: Q_def)
  have Qn: "Q = 0 \<or> 1 / 2 ^ 64 \<le> \<bar>Q\<bar>"
  proof (cases "g = 0")
    case True
    then show ?thesis by (simp add: Q_def)
  next
    case False
    from qr(2) [OF this] have "1 / 2 ^ 64 \<le> \<bar>Q\<bar>" unfolding Q_def .
    then show ?thesis by (rule disjI2)
  qed
  have p117: "fl (2 ^ 117) = (2 ^ 117 :: rat)"
    using fl_nat_pow [of 1 117] by simp
  have qb: "\<bar>q\<bar> \<le> 2 ^ 117" unfolding q_def by (rule fl_abs_le [OF Qb p117])
  have qg: "q * 2 ^ 116 \<in> \<int>"
  proof (cases "Q = 0")
    case True
    then show ?thesis by (simp add: q_def fl_zero)
  next
    case False
    with Qn have "1 / 2 ^ 64 \<le> \<bar>Q\<bar>" by simp
    then show ?thesis unfolding q_def by (rule fl_grid_big)
  qed
  have Leg: "Le * 2 ^ 116 \<in> \<int>" unfolding Le_def by (rule grid_add [OF neg qg])
  have m1: "of_nat (8 * k + 1) * 2 ^ 117 = K * 2 ^ 120 + (2 ^ 117 :: rat)"
    by (simp add: K_def algebra_simps)
  have "\<bar>Le\<bar> \<le> \<bar>py_val ne\<bar> + \<bar>q\<bar>" unfolding Le_def by (rule abs_triangle_ineq)
  also have "\<dots> \<le> K * 2 ^ 120 + 2 ^ 117" using neb qb by (simp add: K_def)
  finally have Leb: "\<bar>Le\<bar> \<le> of_nat (8 * k + 1) * 2 ^ 117" by (simp only: m1)
  have k53: "8 * k + 1 \<le> 2 ^ 53" using k32 by simp
  have Lb: "\<bar>L\<bar> \<le> of_nat (8 * k + 1) * 2 ^ 117"
    unfolding L_def by (rule fl_abs_le [OF Leb fl_nat_pow [OF k53]])
  have Lg: "L * 2 ^ 116 \<in> \<int>" unfolding L_def by (rule fl_grid [OF Leg])
  have Reg: "Re * 2 ^ 116 \<in> \<int>" unfolding Re_def by (rule grid_add [OF Lg grid_of_int])
  have "\<bar>of_int (b - a) :: rat\<bar> = of_int \<bar>b - a\<bar>" by simp
  also have "\<dots> \<le> of_int (2 ^ 53)" using len by (simp only: of_int_le_iff)
  finally have lenr: "\<bar>of_int (b - a) :: rat\<bar> \<le> 2 ^ 53" by simp
  have m2: "K * 2 ^ 120 + 2 ^ 117 + 2 ^ 53 \<le> of_nat (Suc k) * (2 ^ 120 :: rat)"
    by (simp add: K_def algebra_simps)
  have "\<bar>Re\<bar> \<le> \<bar>L\<bar> + \<bar>of_int (b - a)\<bar>" unfolding Re_def by (rule abs_triangle_ineq)
  also have "\<dots> \<le> (K * 2 ^ 120 + 2 ^ 117) + 2 ^ 53"
    using Lb lenr by (simp only: m1)
  also note m2
  finally have Reb: "\<bar>Re\<bar> \<le> of_nat (Suc k) * 2 ^ 120" .
  have sk53: "Suc k \<le> 2 ^ 53" using k32 by simp
  have Rb: "\<bar>R\<bar> \<le> of_nat (Suc k) * 2 ^ 120"
    unfolding R_def by (rule fl_abs_le [OF Reb fl_nat_pow [OF sk53]])
  have Rg: "R * 2 ^ 116 \<in> \<int>" unfolding R_def by (rule fl_grid [OF Reg])
  have big: "K * 2 ^ 120 + 2 ^ 117 + 2 ^ 53 \<le> (2 ^ 160 :: rat)"
  proof -
    have "K * 2 ^ 120 \<le> 2 ^ 32 * 2 ^ 120" using K(2) by (intro mult_right_mono) simp_all
    then show ?thesis by simp
  qed
  have nQ: "binary64_normal Q"
  proof (rule binary64_normalI)
    have "(1::rat) / 2 ^ 116 \<le> 1 / 2 ^ 64" by (simp add: divide_simps)
    moreover have "(2::rat) ^ 117 \<le> 2 ^ 160" by simp
    ultimately show "Q = 0 \<or> 1 / 2 ^ 116 \<le> \<bar>Q\<bar> \<and> \<bar>Q\<bar> \<le> 2 ^ 160"
      using Qn Qb by linarith
  qed
  have nL: "binary64_normal Le"
  proof (rule binary64_normalI)
    have "(0::rat) \<le> 2 ^ 53" by simp
    then have "\<bar>Le\<bar> \<le> 2 ^ 160" using Leb big unfolding m1 by linarith
    with grid_nonzero [OF Leg] show "Le = 0 \<or> 1 / 2 ^ 116 \<le> \<bar>Le\<bar> \<and> \<bar>Le\<bar> \<le> 2 ^ 160"
      by blast
  qed
  have nR: "binary64_normal Re"
  proof (rule binary64_normalI)
    have "\<bar>Re\<bar> \<le> \<bar>L\<bar> + \<bar>of_int (b - a)\<bar>" unfolding Re_def by (rule abs_triangle_ineq)
    also have "\<dots> \<le> (K * 2 ^ 120 + 2 ^ 117) + 2 ^ 53"
      using Lb lenr by (simp only: m1)
    also note big
    finally have "\<bar>Re\<bar> \<le> 2 ^ 160" .
    with grid_nonzero [OF Reg] show "Re = 0 \<or> 1 / 2 ^ 116 \<le> \<bar>Re\<bar> \<and> \<bar>Re\<bar> \<le> 2 ^ 160"
      by blast
  qed
  have e1: "exact_quot (PyInt g) s = Q" unfolding Q_def by (rule exact_quot_int [OF g])
  have e2: "py_quot (PyInt g) s = PyFloat q" by (simp only: py_quot_exact e1 q_def)
  have e3: "exact_add ne (PyFloat q) = Le"
    by (simp add: exact_add_def Le_def to_float_val [OF dbl])
  have e4: "py_add ne (PyFloat q) = PyFloat L"
    using to_float_val [OF dbl] by (cases ne) (simp_all add: L_def Le_def)
  have e5: "exact_add (PyFloat L) (PyInt (b - a)) = Re"
    using fl_of_int [OF len] by (simp add: exact_add_def Re_def)
  have e6: "py_add (PyFloat L) (PyInt (b - a)) = PyFloat R"
    using fl_of_int [OF len] by (simp add: R_def Re_def)
  have dR: "is_double (PyFloat R)" by (simp add: R_def fl_idem)
  have "list_all binary64_normal (scale_loop_exact s (PyInt b) (PyFloat R) (int_spans rest))"
    using Cons.IH [OF rest b dR _ _ k] Rg Rb by simp
  then show ?case
    using nQ nL nR
    by (simp add: ab int_spans_Cons g_def [symmetric] e2 e1 e3 e4 e5 e6 Let_def
             del: py_add.simps py_quot.simps exact_quot.simps)
qed


text \<open>
  C3 as the code has it: for a non-empty list of at most \<open>2^32\<close> integer exon spans with
  coordinates of magnitude at most \<open>2^52\<close>, and a scale factor of magnitude between
  \<open>2^-64\<close> and \<open>2^64\<close>, the Intron Scaler returns a list of equal length and order whose
  first exon is the input's first exon, and every later exon keeps its length up to the
  rounding of one float addition: \<open>new_stop\<close> is the binary64 nearest to
  \<open>new_start + (stop - start)\<close>, so \<open>new_stop - new_start\<close> differs from \<open>stop - start\<close> by
  at most \<open>|new_start + (stop - start)| / 2^53\<close>. Within these bounds every float operation
  of the run has an exact result that is zero or of normal binary64 magnitude, so that no
  operation overflows or leaves the normal range.
\<close>

theorem scale_introns_lengths:
  assumes "coords \<noteq> []" and "length coords \<le> 2 ^ 32"
    and "\<forall>(a, b) \<in> set coords. \<bar>a\<bar> \<le> 2 ^ 52 \<and> \<bar>b\<bar> \<le> 2 ^ 52"
    and "1 / 2 ^ 64 \<le> \<bar>py_val s\<bar>" and "\<bar>py_val s\<bar> \<le> 2 ^ 64"
  shows "\<exists>new. scale_introns (int_spans coords) s = Inr new
           \<and> length new = length coords
           \<and> hd new = hd (int_spans coords)
           \<and> list_all2 length_kept (tl new) (tl coords)
           \<and> list_all binary64_normal (scale_introns_exact (int_spans coords) s)"
proof -
  from assms(1) obtain a b rest where c: "coords = (a, b) # rest"
    by (cases coords) auto
  from assms(3) have b: "\<bar>b\<bar> \<le> 2 ^ 52"
    and rest: "\<forall>(a, b) \<in> set rest. \<bar>a\<bar> \<le> 2 ^ 52 \<and> \<bar>b\<bar> \<le> 2 ^ 52"
    by (simp_all add: c)
  from rest have len: "\<forall>(a, b) \<in> set rest. \<bar>b - a\<bar> \<le> 2 ^ 53" by fastforce
  from assms(4) have nz: "py_val s \<noteq> 0" by auto
  from scale_loop_lengths [OF nz len, of "PyInt b" "PyInt b"] obtain new where
    new: "scale_loop s (PyInt b) (PyInt b) (int_spans rest) = Inr new" "list_all2 length_kept new rest"
    by blast
  have run: "scale_introns (int_spans coords) s = Inr ((PyInt a, PyInt b) # new)"
    using nz by (simp add: scale_introns_def c int_spans_Cons new(1) bind_err_def)
  have d: "is_double (PyInt b)" using b by simp
  have "\<bar>of_int b :: rat\<bar> = of_int \<bar>b\<bar>" by simp
  also have "\<dots> \<le> of_int (2 ^ 52)" using b by (simp only: of_int_le_iff)
  also have "\<dots> \<le> of_nat 1 * 2 ^ 120" by simp
  finally have bb: "\<bar>py_val (PyInt b)\<bar> \<le> of_nat 1 * 2 ^ 120" by simp
  have g: "py_val (PyInt b) * 2 ^ 116 \<in> \<int>" using grid_of_int [of b] by simp
  have k: "1 + length rest \<le> 2 ^ 32" using assms(2) by (simp add: c)
  have "list_all binary64_normal (scale_loop_exact s (PyInt b) (PyInt b) (int_spans rest))"
    by (rule scale_loop_in_range [OF assms(4,5) rest b d g bb k])
  then have "list_all binary64_normal (scale_introns_exact (int_spans coords) s)"
    by (simp add: scale_introns_exact_def c int_spans_Cons)
  with run new(2) show ?thesis
    by (simp add: c int_spans_Cons list_all2_lengthD)
qed

text \<open>The exons \<open>[(0,10),(20,30)]\<close> with scale factor 3: the exact results of the run are
  \<open>10 / 3\<close>, \<open>10 + 3.3333333333333335\<close> and \<open>13.333333333333334 + 10\<close>.\<close>

theorem scale_introns_lengths_witness:
  "[(0, 10), (20, 30) :: int \<times> int] \<noteq> [] \<and> length [(0, 10), (20, 30) :: int \<times> int] \<le> 2 ^ 32
   \<and> list_all (\<lambda>(a, b). \<bar>a\<bar> \<le> 2 ^ 52 \<and> \<bar>b\<bar> \<le> 2 ^ 52) [(0, 10), (20, 30) :: int \<times> int]
   \<and> 1 / 2 ^ 64 \<le> \<bar>py_val (PyFloat 3)\<bar> \<and> \<bar>py_val (PyFloat 3)\<bar> \<le> 2 ^ 64
   \<and> scale_introns (int_spans [(0, 10), (20, 30)]) (PyFloat 3)
       = Inr [(PyInt 0, PyInt 10),
              (PyFloat (7505999378950827 / 562949953421312),
               PyFloat (3283874728290987 / 140737488355328))]
   \<and> list_all2 length_kept
        [(PyFloat (7505999378950827 / 562949953421312),
          PyFloat (3283874728290987 / 140737488355328))] [(20, 30)]
   \<and> scale_introns_exact (int_spans [(0, 10), (20, 30)]) (PyFloat 3)
       = [10 / 3, 10 + 7505999378950827 / 2251799813685248,
          7505999378950827 / 562949953421312 + 10]
   \<and> list_all binary64_normal
        [10 / 3, 10 + 7505999378950827 / 2251799813685248,
         7505999378950827 / 562949953421312 + 10]"
proof -
  have h1: "[(0, 10), (20, 30) :: int \<times> int] \<noteq> []" by simp
  have h2: "length [(0, 10), (20, 30) :: int \<times> int] \<le> 2 ^ 32" by simp
  have h3: "\<forall>(a, b) \<in> set [(0, 10), (20, 30) :: int \<times> int]. \<bar>a\<bar> \<le> 2 ^ 52 \<and> \<bar>b\<bar> \<le> 2 ^ 52"
    by simp
  have h4: "1 / 2 ^ 64 \<le> \<bar>py_val (PyFloat 3)\<bar>" by simp
  have h5: "\<bar>py_val (PyFloat 3)\<bar> \<le> 2 ^ 64" by simp
  have e: "scale_introns (int_spans [(0, 10), (20, 30)]) (PyFloat 3)
       = Inr [(PyInt 0, PyInt 10),
              (PyFloat (7505999378950827 / 562949953421312),
               PyFloat (3283874728290987 / 140737488355328))]"
    by code_simp
  have t: "scale_introns_exact (int_spans [(0, 10), (20, 30)]) (PyFloat 3)
       = [10 / 3, 10 + 7505999378950827 / 2251799813685248,
          7505999378950827 / 562949953421312 + 10]"
    by code_simp
  from scale_introns_lengths [OF h1 h2 h3 h4 h5] h1 h2 h3 h4 h5 e t show ?thesis
    by simp
qed

text \<open>
  C3 as the specification states it, with exact equality of the lengths: on the exons
  \<open>[(0,10),(20,30)]\<close> with scale factor 3 the second exon becomes
  \<open>(13.333333333333334, 23.333333333333336)\<close>, of length \<open>10 + 2^-49\<close>, not 10.
\<close>

theorem scale_introns_length_changes:
  "map_sum id span_lengths (scale_introns (int_spans [(0, 10), (20, 30)]) (PyFloat 3))
     = Inr [10, 10 + 1 / 2 ^ 49]
   \<and> map_sum id span_lengths (scale_introns (int_spans [(0, 10), (20, 30)]) (PyFloat 3))
     \<noteq> Inr [10, 10]"
  by code_simp

section \<open>Order of the scaled spans (C7)\<close>

lemma spans_ordered_chain:
  "spans_ordered ((a, b) # rest) = (py_le a b \<and> chain_from b rest)"
  by (induction rest arbitrary: a b) auto

lemma is_double_fl: "is_double a \<Longrightarrow> fl (py_val a) = py_val a"
  by (cases a) (simp_all add: fl_of_int)

lemma scale_loop_ordered:
  assumes "0 < py_val s" and "is_double ne" and "chain_from (PyInt eb) (int_spans rest)"
  shows "\<exists>new. scale_loop s (PyInt eb) ne (int_spans rest) = Inr new \<and> chain_from ne new"
  using assms(2,3)
proof (induction rest arbitrary: eb ne)
  case Nil
  show ?case by (simp add: int_spans_Nil)
next
  case (Cons ab rest)
  obtain a b where ab: "ab = (a, b)" by (cases ab)
  from Cons.prems(2) have ord: "eb \<le> a" "a \<le> b" "chain_from (PyInt b) (int_spans rest)"
    by (simp_all add: ab int_spans_Cons py_le_def)
  obtain q where q: "py_quot (PyInt (a - eb)) s = PyFloat q"
    using py_quot_float by blast
  have q0: "0 \<le> q"
    using py_quot_nonneg [of "a - eb" s] ord(1) assms(1) by (simp add: q)
  define L where "L = fl (py_val ne + q)"
  define R where "R = fl (L + fl (of_int (b - a)))"
  have left: "py_add ne (PyFloat q) = PyFloat L"
    using to_float_val [OF Cons.prems(1)] by (cases ne) (simp_all add: L_def)
  have "fl (py_val ne) \<le> fl (py_val ne + q)"
    using q0 by (intro fl_mono) simp
  then have neL: "py_val ne \<le> L"
    by (simp add: L_def is_double_fl [OF Cons.prems(1)])
  have "0 \<le> fl (of_int (b - a))"
    using ord(2) by (intro fl_nonneg) simp
  then have "fl L \<le> fl (L + fl (of_int (b - a)))"
    by (intro fl_mono) simp
  moreover have "fl L = L" by (simp add: L_def fl_idem)
  ultimately have LR: "L \<le> R" by (simp add: R_def)
  have dR: "is_double (PyFloat R)" by (simp add: R_def fl_idem)
  from Cons.IH [OF dR ord(3)] obtain new where
    new: "scale_loop s (PyInt b) (PyFloat R) (int_spans rest) = Inr new" "chain_from (PyFloat R) new"
    by blast
  have "scale_loop s (PyInt eb) ne (int_spans (ab # rest)) = Inr ((PyFloat L, PyFloat R) # new)"
    using assms(1) new(1) left
    by (simp add: ab int_spans_Cons py_truediv_def bind_err_def q R_def)
  moreover have "chain_from ne ((PyFloat L, PyFloat R) # new)"
    using neL LR new(2) by (simp add: py_le_def)
  ultimately show ?case by blast
qed

text \<open>
  C7 as the code has it: for a non-empty, sorted, mutually non-overlapping list of integer
  exon spans (coordinates of magnitude at most \<open>2^53\<close>) and a positive scale factor, the
  Intron Scaler returns spans that are again increasing and mutually non-overlapping.
\<close>

theorem scale_introns_ordered:
  assumes "coords \<noteq> []" and "0 < py_val s" and "spans_ordered (int_spans coords)"
    and "\<forall>(a, b) \<in> set coords. \<bar>a\<bar> \<le> 2 ^ 53 \<and> \<bar>b\<bar> \<le> 2 ^ 53"
  shows "\<exists>new. scale_introns (int_spans coords) s = Inr new \<and> spans_ordered new"
proof -
  from assms(1) obtain a b rest where c: "coords = (a, b) # rest"
    by (cases coords) auto
  from assms(3) have ord: "py_le (PyInt a) (PyInt b)" "chain_from (PyInt b) (int_spans rest)"
    by (simp_all add: c int_spans_Cons spans_ordered_chain)
  from assms(4) have "is_double (PyInt b)" by (simp add: c)
  from scale_loop_ordered [OF assms(2) this ord(2)] obtain new where
    new: "scale_loop s (PyInt b) (PyInt b) (int_spans rest) = Inr new" "chain_from (PyInt b) new"
    by blast
  have "scale_introns (int_spans coords) s = Inr ((PyInt a, PyInt b) # new)"
    using assms(2) by (simp add: scale_introns_def c int_spans_Cons new(1) bind_err_def)
  moreover have "spans_ordered ((PyInt a, PyInt b) # new)"
    using ord(1) new(2) by (simp add: spans_ordered_chain)
  ultimately show ?thesis by blast
qed

text \<open>The exons \<open>[(0,10),(20,30)]\<close> with scale factor 3.\<close>

theorem scale_introns_ordered_witness:
  "[(0, 10), (20, 30) :: int \<times> int] \<noteq> [] \<and> 0 < py_val (PyFloat 3)
   \<and> spans_ordered (int_spans [(0, 10), (20, 30)])
   \<and> list_all (\<lambda>(a, b). \<bar>a\<bar> \<le> 2 ^ 53 \<and> \<bar>b\<bar> \<le> 2 ^ 53) [(0, 10), (20, 30) :: int \<times> int]
   \<and> scale_introns (int_spans [(0, 10), (20, 30)]) (PyFloat 3)
       = Inr [(PyInt 0, PyInt 10),
              (PyFloat (7505999378950827 / 562949953421312),
               PyFloat (3283874728290987 / 140737488355328))]
   \<and> spans_ordered [(PyInt 0, PyInt 10),
              (PyFloat (7505999378950827 / 562949953421312),
               PyFloat (3283874728290987 / 140737488355328))]"
proof -
  have h1: "[(0, 10), (20, 30) :: int \<times> int] \<noteq> []" by simp
  have h2: "0 < py_val (PyFloat 3)" by simp
  have h3: "spans_ordered (int_spans [(0, 10), (20, 30)])" by code_simp
  have h4: "\<forall>(a, b) \<in> set [(0, 10), (20, 30) :: int \<times> int]. \<bar>a\<bar> \<le> 2 ^ 53 \<and> \<bar>b\<bar> \<le> 2 ^ 53" by simp
  have e: "scale_introns (int_spans [(0, 10), (20, 30)]) (PyFloat 3)
       = Inr [(PyInt 0, PyInt 10),
              (PyFloat (7505999378950827 / 562949953421312),
               PyFloat (3283874728290987 / 140737488355328))]"
    by code_simp
  from scale_introns_ordered [OF h1 h2 h3 h4] h1 h2 h3 h4 e show ?thesis
    by simp
qed

text \<open>
  C7 as the specification states it, for every nonzero scale factor: with the factor
  \<open>-1\<close> the intron of 10 bases becomes \<open>-10\<close> and the second exon lands on the first.
\<close>

theorem scale_introns_negative_factor:
  "spans_ordered (int_spans [(0, 10), (20, 30)]) \<and> py_val (PyFloat (- 1)) \<noteq> 0
   \<and> scale_introns (int_spans [(0, 10), (20, 30)]) (PyFloat (- 1))
       = Inr [(PyInt 0, PyInt 10), (PyFloat 0, PyFloat 10)]
   \<and> \<not> spans_ordered [(PyInt 0, PyInt 10), (PyFloat 0, PyFloat 10)]"
  by code_simp

section \<open>Number of backsplice curves (C1)\<close>

lemma fl_pos_bounds_rel:
  assumes "0 < x"
  shows "x * (1 - 1 / 2 ^ 53) \<le> fl x" and "fl x \<le> x * (1 + 1 / 2 ^ 53)" and "0 < fl x"
proof -
  from fl_err [of x] assms have h: "\<bar>fl x - x\<bar> \<le> x / 2 ^ 53" by simp
  have d: "fl x - x \<le> x / 2 ^ 53" "- (fl x - x) \<le> x / 2 ^ 53"
    by (rule abs_le_D1 [OF h], rule abs_le_D2 [OF h])
  have e: "x * (1 - 1 / 2 ^ 53) = x - x / 2 ^ 53" "x * (1 + 1 / 2 ^ 53) = x + x / 2 ^ 53"
    by (simp_all add: algebra_simps)
  show lo: "x * (1 - 1 / 2 ^ 53) \<le> fl x" and "fl x \<le> x * (1 + 1 / 2 ^ 53)"
    unfolding e using d by linarith+
  have "0 < x * (1 - 1 / 2 ^ 53)" using assms by simp
  with lo show "0 < fl x" by linarith
qed

lemma ceiling_fl_quot:
  fixes r t :: rat
  assumes "0 < t" and "0 < r" and "1 \<le> n"
    and up: "r * (1 + 1 / 2 ^ 53) \<le> (of_int n + 1) * (t * (1 - 1 / 2 ^ 53))"
    and lo: "(of_int n - 1) * (t * (1 + 1 / 2 ^ 53)) < r * (1 - 1 / 2 ^ 53)"
  shows "n \<le> \<lceil>fl (r / fl t)\<rceil>" and "\<lceil>fl (r / fl t)\<rceil> \<le> n + 1"
proof -
  define q where "q = r / fl t"
  note st = fl_pos_bounds_rel [OF assms(1)]
  have q: "0 < q" using assms(2) st(3) by (simp add: q_def)
  have qt: "q * fl t = r" using st(3) by (simp add: q_def)
  note fq = fl_pos_bounds_rel [OF q]
  have n0: "(0::rat) \<le> of_int n - 1" using assms(3) by simp
  have "fl q * fl t \<le> (q * (1 + 1 / 2 ^ 53)) * fl t"
    using fq(2) st(3) by (intro mult_right_mono) simp_all
  also have "\<dots> = r * (1 + 1 / 2 ^ 53)"
    using qt by (simp add: algebra_simps)
  also have "\<dots> \<le> (of_int n + 1) * (t * (1 - 1 / 2 ^ 53))" by (rule up)
  also have "\<dots> \<le> (of_int n + 1) * fl t"
    using st(1) n0 by (intro mult_left_mono) simp_all
  finally have "fl q \<le> of_int n + 1"
    using st(3) by simp
  then have "fl q \<le> of_int (n + 1)" by simp
  then show "\<lceil>fl (r / fl t)\<rceil> \<le> n + 1"
    unfolding q_def by (simp only: ceiling_le_iff)
  have "(of_int n - 1) * fl t \<le> (of_int n - 1) * (t * (1 + 1 / 2 ^ 53))"
    using st(2) n0 by (intro mult_left_mono) simp_all
  also have "\<dots> < r * (1 - 1 / 2 ^ 53)" by (rule lo)
  also have "\<dots> = (q * (1 - 1 / 2 ^ 53)) * fl t"
    using qt by (simp add: algebra_simps)
  also have "\<dots> \<le> fl q * fl t"
    using fq(1) st(3) by (intro mult_right_mono) simp_all
  finally have "of_int n - 1 < fl q"
    using st(3) by simp
  then have "of_int (n - 1) < fl q" by simp
  then have "n - 1 < \<lceil>fl q\<rceil>" by (simp only: less_ceiling_iff)
  then show "n \<le> \<lceil>fl (r / fl t)\<rceil>"
    unfolding q_def by simp
qed

lemma arange_length:
  assumes "py_val step \<noteq> 0"
  shows "\<exists>xs. arange start stop step = Inr xs
           \<and> int (length xs) = max 0 \<lceil>py_val (py_quot (py_sub stop start) step)\<rceil>"
proof -
  obtain q where q: "py_quot (py_sub stop start) step = PyFloat q"
    by (cases "py_sub stop start"; cases step) simp_all
  show ?thesis
    using assms by (simp add: arange_def py_truediv_def bind_err_def q Let_def)
qed


lemma fl_half: "fl (1 / 2) = 1 / 2"
  by code_simp

lemma fl_one: "fl 1 = 1"
  using fl_of_int [of 1] by simp

lemma backsplice_offsets_length:
  assumes "0 < c" and "c < 2 ^ 52"
  shows "\<exists>nums. backsplice_offsets c = Inr nums
           \<and> c \<le> int (length nums) \<and> int (length nums) \<le> c + 1"
proof -
  define C :: rat where "C = of_int c"
  define t :: rat where "t = 1 / (2 * C)"
  have "c \<le> 2 ^ 52 - 1" using assms(2) by simp
  then have "of_int c \<le> (of_int (2 ^ 52 - 1) :: rat)" by (simp only: of_int_le_iff)
  then have Cu: "C \<le> 2 ^ 52 - 1" by (simp add: C_def)
  have C1: "1 \<le> C" using assms(1) by (simp add: C_def)
  have t: "0 < t" using C1 by (simp add: t_def)
  have tC: "t * (2 * C) = 1" using C1 by (simp add: t_def)
  have up: "(1 / 2) * (1 + 1 / 2 ^ 53) \<le> (of_int c + 1) * (t * (1 - 1 / 2 ^ 53))"
  proof -
    have "C * (1 + 1 / 2 ^ 53) \<le> (C + 1) * (1 - 1 / 2 ^ 53)"
      using Cu by (simp add: algebra_simps)
    then have "(C * (1 + 1 / 2 ^ 53)) * t \<le> ((C + 1) * (1 - 1 / 2 ^ 53)) * t"
      using t by (intro mult_right_mono) simp_all
    moreover have "(C * (1 + 1 / 2 ^ 53)) * t = (1 / 2) * (1 + 1 / 2 ^ 53)"
      using C1 by (simp add: t_def)
    ultimately show ?thesis by (simp add: C_def algebra_simps)
  qed
  have lo: "(of_int c - 1) * (t * (1 + 1 / 2 ^ 53)) < (1 / 2) * (1 - 1 / 2 ^ 53)"
  proof -
    have "(C - 1) * (1 + 1 / 2 ^ 53) < C * (1 - 1 / 2 ^ 53)"
      using Cu by (simp add: algebra_simps)
    then have "((C - 1) * (1 + 1 / 2 ^ 53)) * t < (C * (1 - 1 / 2 ^ 53)) * t"
      using t by (intro mult_strict_right_mono) simp_all
    moreover have "(C * (1 - 1 / 2 ^ 53)) * t = (1 / 2) * (1 - 1 / 2 ^ 53)"
      using C1 by (simp add: t_def)
    ultimately show ?thesis by (simp add: C_def algebra_simps)
  qed
  have c1: "1 \<le> c" using assms(1) by simp
  note b = ceiling_fl_quot [OF t _ c1 up lo]
  have st: "0 < fl t" using fl_pos_bounds_rel(3) [OF t] .
  have step: "py_truediv (PyInt 1) (py_mul (PyInt c) (PyInt 2)) = Inr (PyFloat (fl t))"
    using assms(1) by (simp add: py_truediv_def t_def C_def mult.commute)
  from arange_length [of "PyFloat (fl t)" "PyFloat 0" "PyFloat (1 / 2)"] st
  obtain nums where nums: "arange (PyFloat 0) (PyFloat (1 / 2)) (PyFloat (fl t)) = Inr nums"
    "int (length nums) = max 0 \<lceil>fl ((1 / 2) / fl t)\<rceil>"
    by (auto simp: fl_half)
  have "backsplice_offsets c = Inr nums"
    using step nums(1) by (simp add: backsplice_offsets_def bind_err_def)
  moreover have "c \<le> int (length nums)" "int (length nums) \<le> c + 1"
    using b(1) b(2) assms(1) by (simp_all add: nums(2))
  ultimately show ?thesis by blast
qed

lemma fl_eq_0_iff: "fl x = 0 \<longleftrightarrow> x = 0"
proof
  assume "fl x = 0"
  with fl_err [of x] have "\<bar>x\<bar> \<le> \<bar>x\<bar> / 2 ^ 53" by simp
  then have "\<bar>x\<bar> * 2 ^ 53 \<le> \<bar>x\<bar>" by (simp add: field_simps)
  then show "x = 0" by (cases "x = 0") (simp_all add: mult_le_cancel_left1)
qed (simp add: fl_zero)

lemma arange_from_zero:
  assumes "fl st = st" and "st \<noteq> 0"
  shows "arange (PyFloat 0) stop (PyFloat st)
           = Inr (map (\<lambda>i. fl (fl (of_nat i) * st))
                    [0..<nat \<lceil>py_val (py_quot (py_sub stop (PyFloat 0)) (PyFloat st))\<rceil>])"
proof -
  obtain q where q: "py_quot (py_sub stop (PyFloat 0)) (PyFloat st) = PyFloat q"
    by (cases "py_sub stop (PyFloat 0)") simp_all
  show ?thesis
    using assms by (simp add: arange_def py_truediv_def bind_err_def q Let_def fl_zero fl_one fl_idem)
qed


lemma backsplice_step:
  "c \<noteq> 0 \<Longrightarrow> py_truediv (PyInt 1) (py_mul (PyInt c) (PyInt 2))
                = Inr (PyFloat (fl (1 / of_int (2 * c))))"
  by (simp add: py_truediv_def mult.commute)

lemma backsplice_offsets_eq:
  assumes "c \<noteq> 0"
  shows "backsplice_offsets c
           = Inr (map (\<lambda>i. fl (fl (of_nat i) * fl (1 / of_int (2 * c))))
                    [0..<nat \<lceil>backsplice_quotient c\<rceil>])"
proof -
  have nz: "fl (1 / of_int (2 * c)) \<noteq> (0::rat)"
    using assms by (simp add: fl_eq_0_iff)
  have q: "py_val (py_quot (py_sub (PyFloat (1 / 2)) (PyFloat 0)) (PyFloat (fl (1 / of_int (2 * c)))))
             = backsplice_quotient c"
    by (simp add: backsplice_quotient_def mult.commute)
  show ?thesis
    using arange_from_zero [where st = "fl (1 / of_int (2 * c))" and stop = "PyFloat (1 / 2)",
        OF fl_idem nz]
    unfolding q
    by (simp add: backsplice_offsets_def backsplice_step [OF assms] bind_err_def
             del: py_mul.simps)
qed

lemma backsplice_quotient_neg:
  assumes "c < 0"
  shows "backsplice_quotient c \<le> 0"
proof -
  have "1 / of_int (2 * c) \<le> (0::rat)" using assms by simp
  from fl_mono [OF this] have "fl (1 / of_int (2 * c)) \<le> 0" by (simp add: fl_zero)
  then have "(1 / 2) / fl (1 / of_int (2 * c)) \<le> 0"
    by (simp add: divide_nonneg_nonpos divide_le_0_iff)
  from fl_mono [OF this] show ?thesis
    by (simp add: backsplice_quotient_def fl_zero fl_half mult.commute)
qed

lemma backsplice_quotient_ceiling:
  assumes "0 < c" and "c < 2 ^ 52" and "backsplice_quotient c \<le> of_int c"
  shows "\<lceil>backsplice_quotient c\<rceil> = c"
proof -
  from backsplice_offsets_length [OF assms(1,2)] obtain nums where
    nums: "backsplice_offsets c = Inr nums" "c \<le> int (length nums)"
    by blast
  from assms(1) have "c \<noteq> 0" by simp
  from backsplice_offsets_eq [OF this] nums
  have "c \<le> int (nat \<lceil>backsplice_quotient c\<rceil>)" by auto
  then have "c \<le> \<lceil>backsplice_quotient c\<rceil>" using assms(1) by linarith
  moreover have "\<lceil>backsplice_quotient c\<rceil> \<le> c"
    using assms(3) by (simp only: ceiling_le_iff)
  ultimately show ?thesis by simp
qed

lemma circle_junction_curves:
  assumes "c < 2 ^ 52" and "0 < c \<longrightarrow> backsplice_quotient c \<le> of_int c"
  shows "circle_junction ylim y gene_size (start, stop, c)
           = Inr (backsplice_curves ylim y gene_size (start, stop, c))"
proof (cases "c = 0")
  case True
  then show ?thesis by (simp add: circle_junction_zero backsplice_curves_def)
next
  case False
  have n: "nat \<lceil>backsplice_quotient c\<rceil> = nat c"
  proof (cases "0 < c")
    case True
    with assms backsplice_quotient_ceiling [of c] show ?thesis by simp
  next
    case False
    with \<open>c \<noteq> 0\<close> have "c < 0" by simp
    from backsplice_quotient_neg [OF this] have "\<lceil>backsplice_quotient c\<rceil> \<le> 0"
      by (simp add: ceiling_le_iff)
    with \<open>c < 0\<close> show ?thesis by simp
  qed
  show ?thesis
    using False
    by (simp add: circle_junction_def backsplice_offsets_eq [OF False] n bind_err_def
                  backsplice_curves_def)
qed

text \<open>The quotient \<open>0.5 / step\<close> is the count itself, without rounding, at every count from
  1 to 48 and at every power of two.\<close>

lemma backsplice_quotient_small:
  "list_all (\<lambda>c. backsplice_quotient c = of_int c) [1..48]"
  by code_simp

lemma backsplice_quotient_pow2:
  assumes "k \<le> 51"
  shows "backsplice_quotient (2 ^ k) = 2 ^ k"
proof -
  have a: "\<bar>1 :: int\<bar> \<le> 2 ^ 53" by simp
  have p: "(2::rat) powi (- int (Suc k)) = 1 / 2 ^ Suc k"
    by (simp only: power_int_minus power_int_of_nat inverse_eq_divide)
  have s: "fl (1 / of_int (2 * 2 ^ k)) = 1 / 2 ^ Suc k"
    using fl_repr [OF a, of "- int (Suc k)"] unfolding p by simp
  have "(2::int) ^ k \<le> 2 ^ 53" using assms by (intro power_increasing) simp_all
  then have "\<bar>(2::int) ^ k\<bar> \<le> 2 ^ 53" by simp
  from fl_of_int [OF this] have q: "fl (2 ^ k) = (2 ^ k :: rat)" by simp
  have "(1 / 2) / (1 / 2 ^ Suc k) = (2 ^ k :: rat)" by simp
  then show ?thesis
    using s q by (simp add: backsplice_quotient_def fl_half mult.commute)
qed

lemma backsplice_curves_length:
  "length (backsplice_curves ylim y gene_size (start, stop, c)) = nat c"
  by (simp add: backsplice_curves_def)

text \<open>
  C1 as the code has it: for every list of backsplice junctions with counts below \<open>2^52\<close>,
  in which the float quotient \<open>0.5 / step\<close> of every junction of positive count does not
  exceed the count, the Backsplice Curve Generator draws, junction by junction in the
  order of the list, one curve per depth offset \<open>i * step\<close> for \<open>i = 0, \<dots>, count - 1\<close>
  with \<open>step = 1 / (2 * count)\<close>: that is \<open>count\<close> curves for a junction, not \<open>2 * count\<close>,
  and none for a junction of count 0.
\<close>

theorem plot_circles_curves:
  assumes "\<forall>(start, stop, c) \<in> set coordinates.
             c < 2 ^ 52 \<and> (0 < c \<longrightarrow> backsplice_quotient c \<le> of_int c)"
  shows "plot_circles ylim coordinates y gene_size
           = Inr (concat (map (backsplice_curves ylim y gene_size) coordinates))
         \<and> map length (map (backsplice_curves ylim y gene_size) coordinates)
           = map (\<lambda>(start, stop, c). nat c) coordinates"
proof -
  have n: "map length (map (backsplice_curves ylim y gene_size) coordinates)
           = map (\<lambda>(start, stop, c). nat c) coordinates"
    by (induction coordinates) (auto simp: backsplice_curves_def)
  have "circle_junction ylim y gene_size j = Inr (backsplice_curves ylim y gene_size j)"
    if "j \<in> set coordinates" for j
  proof -
    obtain start stop c where j: "j = (start, stop, c)" by (cases j)
    from assms that have "c < 2 ^ 52" "0 < c \<longrightarrow> backsplice_quotient c \<le> of_int c"
      by (auto simp: j)
    then show ?thesis unfolding j by (rule circle_junction_curves)
  qed
  then have "map_err (circle_junction ylim y gene_size) coordinates
               = Inr (map (backsplice_curves ylim y gene_size) coordinates)"
    by (rule map_err_Inr)
  then have "plot_circles ylim coordinates y gene_size
           = Inr (concat (map (backsplice_curves ylim y gene_size) coordinates))"
    by (simp add: plot_circles_def bind_err_def)
  then show ?thesis using n by (rule conjI)
qed

text \<open>Three junctions of counts 2, 0 and 3: five curves, two for the first junction and
  three for the last.\<close>

theorem plot_circles_curves_witness:
  "list_all (\<lambda>(start, stop, c). c < 2 ^ 52 \<and> (0 < c \<longrightarrow> backsplice_quotient c \<le> of_int c))
     [(PyInt 10, PyInt 20, 2), (PyInt 50, PyInt 70, 0), (PyInt 30, PyInt 40, 3)]
   \<and> plot_circles (PyFloat (- 1 / 4), PyFloat (7 / 4))
       [(PyInt 10, PyInt 20, 2), (PyInt 50, PyInt 70, 0), (PyInt 30, PyInt 40, 3)]
       (PyFloat (1 / 2)) (PyInt 100)
     = Inr (concat (map (backsplice_curves (PyFloat (- 1 / 4), PyFloat (7 / 4)) (PyFloat (1 / 2))
                           (PyInt 100))
              [(PyInt 10, PyInt 20, 2), (PyInt 50, PyInt 70, 0), (PyInt 30, PyInt 40, 3)]))
   \<and> map length (map (backsplice_curves (PyFloat (- 1 / 4), PyFloat (7 / 4)) (PyFloat (1 / 2))
                       (PyInt 100))
          [(PyInt 10, PyInt 20, 2), (PyInt 50, PyInt 70, 0), (PyInt 30, PyInt 40, 3)])
     = [2, 0, 3]
   \<and> map_sum id length
       (plot_circles (PyFloat (- 1 / 4), PyFloat (7 / 4))
          [(PyInt 10, PyInt 20, 2), (PyInt 50, PyInt 70, 0), (PyInt 30, PyInt 40, 3)]
          (PyFloat (1 / 2)) (PyInt 100)) = Inr 5"
proof -
  have h: "list_all (\<lambda>(start, stop, c). c < 2 ^ 52 \<and> (0 < c \<longrightarrow> backsplice_quotient c \<le> of_int c))
     [(PyInt 10, PyInt 20, 2), (PyInt 50, PyInt 70, 0), (PyInt 30, PyInt 40, 3)]"
    by code_simp
  then have h': "\<forall>(start, stop, c) \<in> set [(PyInt 10, PyInt 20, 2), (PyInt 50, PyInt 70, 0),
                   (PyInt 30, PyInt 40, 3 :: int)].
             c < 2 ^ 52 \<and> (0 < c \<longrightarrow> backsplice_quotient c \<le> of_int c)"
    by (simp only: list_all_iff)
  note t = plot_circles_curves [OF h', of "(PyFloat (- 1 / 4), PyFloat (7 / 4))" "PyFloat (1 / 2)"
      "PyInt 100"]
  note e = t [THEN conjunct1]
  have n: "map length (map (backsplice_curves (PyFloat (- 1 / 4), PyFloat (7 / 4)) (PyFloat (1 / 2))
                       (PyInt 100))
          [(PyInt 10, PyInt 20, 2), (PyInt 50, PyInt 70, 0), (PyInt 30, PyInt 40, 3)])
     = [2, 0, 3]"
    using t [THEN conjunct2] by simp
  have l: "map_sum id length
       (plot_circles (PyFloat (- 1 / 4), PyFloat (7 / 4))
          [(PyInt 10, PyInt 20, 2), (PyInt 50, PyInt 70, 0), (PyInt 30, PyInt 40, 3)]
          (PyFloat (1 / 2)) (PyInt 100)) = Inr 5"
    unfolding e by (simp add: backsplice_curves_def)
  from h e n l show ?thesis by blast
qed

text \<open>
  C1 as the specification states it, with \<open>2 * count\<close> curves: a junction of count 1 draws
  one curve, not two.
\<close>

theorem plot_circles_one_curve:
  "map_sum id length
     (plot_circles (PyFloat (- 1 / 4), PyFloat (7 / 4)) [(PyInt 10, PyInt 20, 1)]
        (PyFloat (1 / 2)) (PyInt 100)) = Inr 1
   \<and> map_sum id length
     (plot_circles (PyFloat (- 1 / 4), PyFloat (7 / 4)) [(PyInt 10, PyInt 20, 1)]
        (PyFloat (1 / 2)) (PyInt 100)) \<noteq> Inr (2 * 1)"
  by code_simp

text \<open>A count outside the hypothesis on the quotient: at count 49 the step is the float
  \<open>1 / 98\<close>, the quotient \<open>0.5 / step\<close> rounds to \<open>49 + 2^-47\<close>, and
  \<^verbatim>\<open>numpy.arange\<close> yields 50 offsets.\<close>

lemma backsplice_quotient_49: "backsplice_quotient 49 = 49 + 1 / 2 ^ 47"
  by code_simp

lemma backsplice_offsets_49: "map_sum id length (backsplice_offsets 49) = Inr 50"
proof -
  have q: "\<lceil>py_val (py_quot (py_sub (PyFloat (1 / 2)) (PyFloat 0)) (PyFloat (fl (1 / 98))))\<rceil> = 50"
    by code_simp
  have s: "py_truediv (PyInt 1) (py_mul (PyInt 49) (PyInt 2)) = Inr (PyFloat (fl (1 / 98)))"
    by code_simp
  have nz: "py_val (PyFloat (fl (1 / 98))) \<noteq> 0"
    by code_simp
  from arange_length [OF nz, of "PyFloat 0" "PyFloat (1 / 2)"] q
  obtain xs where "arange (PyFloat 0) (PyFloat (1 / 2)) (PyFloat (fl (1 / 98))) = Inr xs"
    "int (length xs) = 50"
    by auto
  with s show ?thesis
    by (simp add: backsplice_offsets_def bind_err_def)
qed

section \<open>Number of canonical arcs (C5)\<close>

lemma step_denominator_value: "py_truediv (PyInt 1) radian_diff = Inr (PyFloat 5)"
  by code_simp

lemma radian_diff_value: "radian_diff = PyFloat (3602879701896397 / 18014398509481984)"
  by code_simp

lemma radian_correction_ok:
  "py_val xlen \<noteq> 0 \<Longrightarrow> \<exists>rc. radian_correction arc_len xlen = Inr rc"
  by (simp add: radian_correction_def bind_err_def py_truediv_def)

lemma sj_arange_exact:
  assumes "0 < c" and "c \<le> 2 ^ 50"
  shows "\<exists>rs. py_truediv (PyInt 1) (py_mul (PyInt c) (PyFloat 5))
                = Inr (PyFloat (fl (1 / (5 * of_int c))))
           \<and> arange radian_low radian_high (PyFloat (fl (1 / (5 * of_int c)))) = Inr rs
           \<and> int (length rs)
               = max 0 \<lceil>fl (3602879701896397 / 18014398509481984 / fl (1 / (5 * of_int c)))\<rceil>"
proof -
  define t :: rat where "t = 1 / (5 * of_int c)"
  have t: "0 < t" using assms(1) by (simp add: t_def)
  have st: "0 < fl t" using fl_pos_bounds_rel(3) [OF t] .
  have cb: "\<bar>c\<bar> \<le> 2 ^ 53" "\<bar>c * 5\<bar> \<le> 2 ^ 53" using assms by simp_all
  have "fl (fl (of_int c) * 5) = fl (of_int (c * 5))"
    by (simp add: fl_of_int [OF cb(1)])
  also have "\<dots> = of_int (c * 5)" by (rule fl_of_int [OF cb(2)])
  finally have m: "fl (fl (of_int c) * 5) = 5 * of_int c"
    by simp
  have step: "py_truediv (PyInt 1) (py_mul (PyInt c) (PyFloat 5)) = Inr (PyFloat (fl t))"
    using assms(1) by (simp add: m py_truediv_def t_def fl_one)
  have sub: "py_sub radian_high radian_low = PyFloat (3602879701896397 / 18014398509481984)"
    using radian_diff_value by (simp add: radian_diff_def)
  from arange_length [of "PyFloat (fl t)" radian_low radian_high] st
  obtain rs where rs: "arange radian_low radian_high (PyFloat (fl t)) = Inr rs"
    "int (length rs) = max 0 \<lceil>fl (3602879701896397 / 18014398509481984 / fl t)\<rceil>"
    by (auto simp: sub)
  with step show ?thesis unfolding t_def by blast
qed

lemma sj_arange_length:
  assumes "0 < c" and "c \<le> 2 ^ 50"
  shows "\<exists>step rs. py_truediv (PyInt 1) (py_mul (PyInt c) (PyFloat 5)) = Inr step
           \<and> arange radian_low radian_high step = Inr rs
           \<and> c \<le> int (length rs) \<and> int (length rs) \<le> c + 1"
proof -
  define C :: rat where "C = of_int c"
  define t :: rat where "t = 1 / (5 * C)"
  define r :: rat where "r = 3602879701896397 / 18014398509481984"
  have "of_int c \<le> (of_int (2 ^ 50) :: rat)" using assms(2) by (simp only: of_int_le_iff)
  then have Cu: "C \<le> 2 ^ 50" by (simp add: C_def)
  have C1: "1 \<le> C" using assms(1) by (simp add: C_def)
  have t: "0 < t" using C1 by (simp add: t_def)
  have r: "0 < r" by (simp add: r_def)
  have rt: "r = (5 * r * C) * t" using C1 by (simp add: t_def)
  have rt': "(5 * r * C) * t = r" using rt by simp
  have up: "r * (1 + 1 / 2 ^ 53) \<le> (of_int c + 1) * (t * (1 - 1 / 2 ^ 53))"
  proof -
    have "(5 * r * C) * (1 + 1 / 2 ^ 53) \<le> (C + 1) * (1 - 1 / 2 ^ 53)"
      using Cu C1 by (simp add: r_def algebra_simps)
    then have le: "((5 * r * C) * (1 + 1 / 2 ^ 53)) * t \<le> ((C + 1) * (1 - 1 / 2 ^ 53)) * t"
      using t by (intro mult_right_mono) simp_all
    have "r * (1 + 1 / 2 ^ 53) = ((5 * r * C) * t) * (1 + 1 / 2 ^ 53)"
      by (simp only: rt')
    also have "\<dots> = ((5 * r * C) * (1 + 1 / 2 ^ 53)) * t"
      by (simp only: mult_ac)
    also note le
    also have "((C + 1) * (1 - 1 / 2 ^ 53)) * t = (of_int c + 1) * (t * (1 - 1 / 2 ^ 53))"
      by (simp only: C_def mult_ac)
    finally show ?thesis .
  qed
  have lo: "(of_int c - 1) * (t * (1 + 1 / 2 ^ 53)) < r * (1 - 1 / 2 ^ 53)"
  proof -
    have "(C - 1) * (1 + 1 / 2 ^ 53) < (5 * r * C) * (1 - 1 / 2 ^ 53)"
      using Cu C1 by (simp add: r_def algebra_simps)
    then have less: "((C - 1) * (1 + 1 / 2 ^ 53)) * t < ((5 * r * C) * (1 - 1 / 2 ^ 53)) * t"
      using t by (intro mult_strict_right_mono) simp_all
    have "(of_int c - 1) * (t * (1 + 1 / 2 ^ 53)) = ((C - 1) * (1 + 1 / 2 ^ 53)) * t"
      by (simp only: C_def mult_ac)
    also note less
    also have "((5 * r * C) * (1 - 1 / 2 ^ 53)) * t = ((5 * r * C) * t) * (1 - 1 / 2 ^ 53)"
      by (simp only: mult_ac)
    also have "\<dots> = r * (1 - 1 / 2 ^ 53)"
      by (simp only: rt')
    finally show ?thesis .
  qed
  have c1: "1 \<le> c" using assms(1) by simp
  note b = ceiling_fl_quot [OF t r c1 up lo]
  from sj_arange_exact [OF assms] obtain rs where
    rs: "py_truediv (PyInt 1) (py_mul (PyInt c) (PyFloat 5)) = Inr (PyFloat (fl t))"
        "arange radian_low radian_high (PyFloat (fl t)) = Inr rs"
        "int (length rs) = max 0 \<lceil>fl (r / fl t)\<rceil>"
    unfolding t_def C_def r_def by blast
  have "c \<le> int (length rs)" "int (length rs) \<le> c + 1"
    using b(1) b(2) assms(1) by (simp_all add: rs(3))
  with rs(1,2) show ?thesis by blast
qed

lemma sj_junction_arcs:
  assumes "c \<noteq> 0" and "radian_correction (py_sub stop start) (py_sub xmax xmin) = Inr rc"
    and "py_truediv (PyInt 1) (py_mul (PyInt c) (PyFloat 5)) = Inr step"
    and "arange radian_low radian_high step = Inr rs"
  shows "plot_SJ_curves (xmin, xmax) [(start, stop, c)] y
           = Inr (map (\<lambda>radians. ConnectionPatch (start, y) (stop, y)
                                   (py_mul (PyFloat radians) rc)) rs)"
proof -
  have "sj_junction (PyFloat 5) (py_sub xmax xmin) y (start, stop, c)
          = Inr (map (\<lambda>radians. ConnectionPatch (start, y) (stop, y)
                                  (py_mul (PyFloat radians) rc)) rs)"
    unfolding sj_junction_def using assms by (simp add: bind_err_def del: py_mul.simps)
  then show ?thesis
    by (simp add: plot_SJ_curves_def step_denominator_value bind_err_def del: py_mul.simps)
qed

lemma sj_quotient_value:
  assumes "0 < c" and "c \<le> 2 ^ 50"
  shows "sj_quotient c = fl (3602879701896397 / 18014398509481984 / fl (1 / (5 * of_int c)))"
proof -
  from sj_arange_exact [OF assms] have
    "py_truediv (PyInt 1) (py_mul (PyInt c) (PyFloat 5)) = Inr (PyFloat (fl (1 / (5 * of_int c))))"
    by blast
  then have q: "py_quot (PyInt 1) (py_mul (PyInt c) (PyFloat 5)) = PyFloat (fl (1 / (5 * of_int c)))"
    by (simp add: py_truediv_def split: if_splits del: py_mul.simps py_quot.simps)
  have sub: "py_sub radian_high radian_low = PyFloat (3602879701896397 / 18014398509481984)"
    using radian_diff_value by (simp add: radian_diff_def)
  show ?thesis
    unfolding sj_quotient_def q sub by simp
qed

lemma sj_junction_count:
  assumes "py_val xlen \<noteq> 0" and "0 \<le> c" and "c \<le> 2 ^ 50"
  shows "\<exists>ps. sj_junction (PyFloat 5) xlen y (start, stop, c) = Inr ps
           \<and> c \<le> int (length ps) \<and> int (length ps) \<le> c + 1
           \<and> (sj_quotient c \<le> of_int c \<longrightarrow> int (length ps) = c)
           \<and> (\<forall>p \<in> set ps. \<exists>rad. p = ConnectionPatch (start, y) (stop, y) rad)"
proof (cases "c = 0")
  case True
  then show ?thesis by (simp add: sj_junction_zero)
next
  case False
  with assms(2) have c: "0 < c" by simp
  from radian_correction_ok [OF assms(1)] obtain rc where
    rc: "radian_correction (py_sub stop start) xlen = Inr rc"
    by blast
  from sj_arange_exact [OF c assms(3)] obtain rs where
    rs: "py_truediv (PyInt 1) (py_mul (PyInt c) (PyFloat 5))
           = Inr (PyFloat (fl (1 / (5 * of_int c))))"
        "arange radian_low radian_high (PyFloat (fl (1 / (5 * of_int c)))) = Inr rs"
        "int (length rs) = max 0 \<lceil>sj_quotient c\<rceil>"
    unfolding sj_quotient_value [OF c assms(3)] by blast
  from sj_arange_length [OF c assms(3)] rs(1,2) have
    b: "c \<le> int (length rs)" "int (length rs) \<le> c + 1"
    by auto
  have x: "int (length rs) = c" if "sj_quotient c \<le> of_int c"
  proof -
    from that have "\<lceil>sj_quotient c\<rceil> \<le> c" by (simp only: ceiling_le_iff)
    with rs(3) c b(1) show ?thesis by simp
  qed
  have "sj_junction (PyFloat 5) xlen y (start, stop, c)
          = Inr (map (\<lambda>radians. ConnectionPatch (start, y) (stop, y)
                                  (py_mul (PyFloat radians) rc)) rs)"
    unfolding sj_junction_def using False rc rs(1,2)
    by (simp add: bind_err_def del: py_mul.simps)
  with b x show ?thesis by auto
qed

text \<open>
  What the generator does on a whole junction list, on axes of nonzero width and for
  counts from 0 to \<open>2^50\<close>: the arcs are drawn junction by junction in the order of the
  list, every arc of a junction runs from \<open>(start, y)\<close> to \<open>(stop, y)\<close>, a junction of count
  \<open>c\<close> gets at least \<open>c\<close> and at most \<open>c + 1\<close> arcs, and exactly \<open>c\<close> of them unless the
  float quotient \<open>(0.4 - 0.2) / step\<close> is rounded above \<open>c\<close>.
\<close>

lemma plot_SJ_curves_arcs:
  assumes "py_val (py_sub xmax xmin) \<noteq> 0"
    and "\<forall>(start, stop, c) \<in> set coordinates. 0 \<le> c \<and> c \<le> 2 ^ 50"
  shows "\<exists>groups. plot_SJ_curves (xmin, xmax) coordinates y = Inr (concat groups)
           \<and> list_all2 (\<lambda>ps (start, stop, c).
                 c \<le> int (length ps) \<and> int (length ps) \<le> c + 1
                 \<and> (sj_quotient c \<le> of_int c \<longrightarrow> int (length ps) = c)
                 \<and> (\<forall>p \<in> set ps. \<exists>rad. p = ConnectionPatch (start, y) (stop, y) rad))
               groups coordinates"
proof -
  have "\<exists>groups. map_err (sj_junction (PyFloat 5) (py_sub xmax xmin) y) coordinates = Inr groups
           \<and> list_all2 (\<lambda>ps (start, stop, c).
                 c \<le> int (length ps) \<and> int (length ps) \<le> c + 1
                 \<and> (sj_quotient c \<le> of_int c \<longrightarrow> int (length ps) = c)
                 \<and> (\<forall>p \<in> set ps. \<exists>rad. p = ConnectionPatch (start, y) (stop, y) rad))
               groups coordinates"
    using assms(2)
  proof (induction coordinates)
    case Nil
    show ?case by simp
  next
    case (Cons j js)
    obtain start stop c where j: "j = (start, stop, c)" by (cases j)
    from Cons.prems have c: "0 \<le> c" "c \<le> 2 ^ 50"
      and js: "\<forall>(start, stop, c) \<in> set js. 0 \<le> c \<and> c \<le> 2 ^ 50"
      by (simp_all add: j)
    from sj_junction_count [OF assms(1) c, of y start stop] obtain ps where
      ps: "sj_junction (PyFloat 5) (py_sub xmax xmin) y (start, stop, c) = Inr ps"
          "c \<le> int (length ps)" "int (length ps) \<le> c + 1"
          "sj_quotient c \<le> of_int c \<longrightarrow> int (length ps) = c"
          "\<forall>p \<in> set ps. \<exists>rad. p = ConnectionPatch (start, y) (stop, y) rad"
      by blast
    from Cons.IH [OF js] obtain groups where
      g: "map_err (sj_junction (PyFloat 5) (py_sub xmax xmin) y) js = Inr groups"
         "list_all2 (\<lambda>ps (start, stop, c).
                 c \<le> int (length ps) \<and> int (length ps) \<le> c + 1
                 \<and> (sj_quotient c \<le> of_int c \<longrightarrow> int (length ps) = c)
                 \<and> (\<forall>p \<in> set ps. \<exists>rad. p = ConnectionPatch (start, y) (stop, y) rad))
               groups js"
      by blast
    have "map_err (sj_junction (PyFloat 5) (py_sub xmax xmin) y) (j # js) = Inr (ps # groups)"
      by (simp add: j ps(1) g(1) bind_err_def)
    with ps(2-5) g(2) show ?case by (simp add: j)
  qed
  then obtain groups where
    g: "map_err (sj_junction (PyFloat 5) (py_sub xmax xmin) y) coordinates = Inr groups"
       "list_all2 (\<lambda>ps (start, stop, c).
                 c \<le> int (length ps) \<and> int (length ps) \<le> c + 1
                 \<and> (sj_quotient c \<le> of_int c \<longrightarrow> int (length ps) = c)
                 \<and> (\<forall>p \<in> set ps. \<exists>rad. p = ConnectionPatch (start, y) (stop, y) rad))
               groups coordinates"
    by blast
  have "plot_SJ_curves (xmin, xmax) coordinates y = Inr (concat groups)"
    by (simp add: plot_SJ_curves_def step_denominator_value bind_err_def g(1))
  with g(2) show ?thesis by blast
qed

text \<open>At the counts from 1 to 6 the quotient is the count itself; at count 7 it is rounded
  above 7.\<close>

lemma sj_quotient_small:
  "list_all (\<lambda>c. sj_quotient c = of_int c) [1..6] \<and> sj_quotient 7 = 7 + 1 / 2 ^ 50"
  by code_simp

text \<open>
  C5, exactly \<open>count\<close> arcs for a junction of positive count, against the code at a
  junction of count 7 on axes from 0 to 1000: the step is the float \<open>1 / 35.0\<close>, the
  quotient \<open>(0.4 - 0.2) / step\<close> is rounded to \<open>7.000000000000001\<close>, \<^verbatim>\<open>numpy.arange\<close>
  takes its ceiling, and eight arcs are drawn, not seven.
\<close>

theorem plot_SJ_curves_seven:
  "map_sum id length
     (plot_SJ_curves (PyFloat 0, PyFloat 1000) [(PyInt 10, PyInt 20, 7)] (PyFloat 1)) = Inr 8
   \<and> map_sum id length
     (plot_SJ_curves (PyFloat 0, PyFloat 1000) [(PyInt 10, PyInt 20, 7)] (PyFloat 1)) \<noteq> Inr 7"
proof -
  have x: "py_val (py_sub (PyFloat 1000) (PyFloat 0)) \<noteq> 0" by code_simp
  from radian_correction_ok [OF x] obtain rc where
    rc: "radian_correction (py_sub (PyInt 20) (PyInt 10)) (py_sub (PyFloat 1000) (PyFloat 0)) = Inr rc"
    by blast
  have n: "\<lceil>fl (3602879701896397 / 18014398509481984 / fl (1 / (5 * of_int 7)))\<rceil> = (8::int)"
    by code_simp
  from sj_arange_exact [of 7] n obtain rs where
    rs: "py_truediv (PyInt 1) (py_mul (PyInt 7) (PyFloat 5)) = Inr (PyFloat (fl (1 / (5 * of_int 7))))"
        "arange radian_low radian_high (PyFloat (fl (1 / (5 * of_int 7)))) = Inr rs"
        "length rs = 8"
    by auto
  have "plot_SJ_curves (PyFloat 0, PyFloat 1000) [(PyInt 10, PyInt 20, 7)] (PyFloat 1)
          = Inr (map (\<lambda>radians. ConnectionPatch (PyInt 10, PyFloat 1) (PyInt 20, PyFloat 1)
                                  (py_mul (PyFloat radians) rc)) rs)"
    by (intro sj_junction_arcs [OF _ rc rs(1,2)]) simp
  then show ?thesis by (simp add: rs(3))
qed

end
